theory Spec2Isabelle
  imports Main
begin

section \<open>Python strings\<close>

text \<open>
  A Python \<open>str\<close> is a sequence of Unicode code points. A code point is a natural
  number, so that the model covers every reply a language model can produce and not
  only eight-bit text. \<open>ascii\<close> embeds the literals of the source.
\<close>

type_synonym pychar = nat
type_synonym pystr = "pychar list"

definition ascii :: "string \<Rightarrow> pystr" where
  "ascii s = map of_char s"

text \<open>
  \<open>str.isspace\<close> on one code point; the same set is the class \<open>\s\<close> of a
  Unicode pattern and the set \<open>str.strip()\<close> removes.
\<close>

definition isspace :: "pychar \<Rightarrow> bool" where
  "isspace c \<longleftrightarrow>
     (9 \<le> c \<and> c \<le> 13) \<or> (28 \<le> c \<and> c \<le> 32) \<or> c = 133 \<or> c = 160 \<or> c = 5760 \<or>
     (8192 \<le> c \<and> c \<le> 8202) \<or> c = 8232 \<or> c = 8233 \<or> c = 8239 \<or> c = 8287 \<or> c = 12288"

definition strip :: "pystr \<Rightarrow> pystr" where
  "strip s = rev (dropWhile isspace (rev (dropWhile isspace s)))"

definition strip_chars :: "pystr \<Rightarrow> pystr \<Rightarrow> pystr" where
  "strip_chars cs s = rev (dropWhile (\<lambda>c. c \<in> set cs) (rev (dropWhile (\<lambda>c. c \<in> set cs) s)))"

definition startswith :: "pystr \<Rightarrow> pystr \<Rightarrow> bool" where
  "startswith s p \<longleftrightarrow> take (length p) s = p"

text \<open>\<open>sub in s\<close> for strings.\<close>

fun contains :: "pystr \<Rightarrow> pystr \<Rightarrow> bool" where
  "contains sub [] = (sub = [])"
| "contains sub (x # xs) = (startswith (x # xs) sub \<or> contains sub xs)"

fun join :: "pystr \<Rightarrow> pystr list \<Rightarrow> pystr" where
  "join sep [] = []"
| "join sep [x] = x"
| "join sep (x # y # ys) = x @ sep @ join sep (y # ys)"

section \<open>Regular expressions as the module \<open>re\<close> runs them\<close>

text \<open>
  The patterns of the parser use literals, character classes, greedy and lazy
  repetition, one capturing group, the multi-line \<open>$\<close> and the word boundary \<open>\b\<close>.
  \<open>ms r st\<close> lists, in the order a backtracking matcher tries them, the states in
  which \<open>r\<close> can end when started in \<open>st\<close>. A state is the character just consumed
  (for \<open>\b\<close>), the text still to read, and the text of group 1 when it has been closed.
  A repetition only iterates when its body consumed something.
\<close>

datatype re =
    Lit "pychar \<Rightarrow> bool"
  | Seq re re
  | Star re
  | Lazy re
  | Grp re
  | Eol
  | Wb "pychar \<Rightarrow> bool"

type_synonym mstate = "pychar option \<times> pystr \<times> pystr option"

function ms :: "re \<Rightarrow> mstate \<Rightarrow> mstate list" where
  "ms (Lit P) (p, xs, g) =
     (case xs of [] \<Rightarrow> [] | x # xs' \<Rightarrow> if P x then [(Some x, xs', g)] else [])"
| "ms (Seq a b) st = concat (map (ms b) (ms a st))"
| "ms (Star r) (p, xs, g) =
     concat (map (\<lambda>(p', xs', g'). if length xs' < length xs then ms (Star r) (p', xs', g') else [])
                 (ms r (p, xs, g))) @ [(p, xs, g)]"
| "ms (Lazy r) (p, xs, g) =
     (p, xs, g) #
     concat (map (\<lambda>(p', xs', g'). if length xs' < length xs then ms (Lazy r) (p', xs', g') else [])
                 (ms r (p, xs, g)))"
| "ms (Grp r) (p, xs, g) =
     map (\<lambda>(p', xs', g'). (p', xs', Some (take (length xs - length xs') xs))) (ms r (p, xs, g))"
| "ms Eol (p, xs, g) =
     (case xs of [] \<Rightarrow> [(p, xs, g)] | x # xs' \<Rightarrow> if x = 10 then [(p, xs, g)] else [])"
| "ms (Wb W) (p, xs, g) =
     (if (case p of None \<Rightarrow> False | Some c \<Rightarrow> W c) \<noteq> (case xs of [] \<Rightarrow> False | x # xs' \<Rightarrow> W x)
      then [(p, xs, g)] else [])"
  by pat_completeness auto
termination
  by (relation "measures [\<lambda>(r, st). size r, \<lambda>(r, (p, xs, g)). length xs]") auto

definition Plus :: "re \<Rightarrow> re" where
  "Plus r = Seq r (Star r)"

text \<open>
  \<open>re.search\<close>: the first start position, from the left, at which the pattern
  matches, and there the match the matcher finds first. The result is \<open>group(1)\<close> of
  the match; every pattern searched for below closes its group on each path.
\<close>

fun search_from :: "re \<Rightarrow> pychar option \<Rightarrow> pystr \<Rightarrow> mstate option" where
  "search_from r p [] = (case ms r (p, [], None) of [] \<Rightarrow> None | st # _ \<Rightarrow> Some st)"
| "search_from r p (x # xs) =
     (case ms r (p, x # xs, None) of [] \<Rightarrow> search_from r (Some x) xs | st # _ \<Rightarrow> Some st)"

definition re_search :: "re \<Rightarrow> pystr \<Rightarrow> pystr option" where
  "re_search r text = (case search_from r None text of None \<Rightarrow> None | Some (p, xs, g) \<Rightarrow> g)"

text \<open>
  \<open>re.sub\<close> with a constant replacement: the matches are found on the original
  text, left to right and without overlap. The patterns substituted below never match
  the empty string, so a position with no consuming match is copied.
\<close>

function re_sub :: "re \<Rightarrow> pystr \<Rightarrow> pychar option \<Rightarrow> pystr \<Rightarrow> pystr" where
  "re_sub r repl p [] = []"
| "re_sub r repl p (x # xs) =
     (case ms r (p, x # xs, None) of
        [] \<Rightarrow> x # re_sub r repl (Some x) xs
      | (p', xs', g') # _ \<Rightarrow>
          if length xs' < length (x # xs) then repl @ re_sub r repl p' xs'
          else x # re_sub r repl (Some x) xs)"
  by pat_completeness auto
termination
  by (relation "measure (\<lambda>(r, repl, p, xs). length xs)") auto

text \<open>
  A cased letter of a pattern compiled with \<open>re.IGNORECASE\<close> matches its two ASCII
  forms and the code points Python adds to them: U+0130 and U+0131 for \<open>i\<close>, U+017F
  for \<open>s\<close>, U+212A for \<open>k\<close>. Any other pattern character matches itself.
\<close>

definition ci :: "pychar \<Rightarrow> pychar \<Rightarrow> bool" where
  "ci c x \<longleftrightarrow>
     (let lo = (if 65 \<le> c \<and> c \<le> 90 then c + 32 else c) in
      if 97 \<le> lo \<and> lo \<le> 122
      then x = lo \<or> x + 32 = lo \<or> (lo = 105 \<and> (x = 304 \<or> x = 305)) \<or>
           (lo = 115 \<and> x = 383) \<or> (lo = 107 \<and> x = 8490)
      else x = c)"

text \<open>A literal text followed by the rest of the pattern.\<close>

definition istr :: "pystr \<Rightarrow> re \<Rightarrow> re" where
  "istr s r = foldr (\<lambda>c. Seq (Lit (ci c))) s r"

definition sstr :: "pystr \<Rightarrow> re \<Rightarrow> re" where
  "sstr s r = foldr (\<lambda>c. Seq (Lit (\<lambda>x. x = c))) s r"

text \<open>\<^verbatim>\<open>Final Answer:\s*(.+)\<close> with DOTALL and IGNORECASE.\<close>

definition final_re :: re where
  "final_re = istr (ascii ''Final Answer:'') (Seq (Star (Lit isspace)) (Grp (Plus (Lit (\<lambda>x. True)))))"

text \<open>\<^verbatim>\<open>Thought:\s*([^\n]+)\<close> and \<^verbatim>\<open>Action:\s*([^\n]+)\<close> with IGNORECASE.\<close>

definition thought_re :: re where
  "thought_re = istr (ascii ''Thought:'') (Seq (Star (Lit isspace)) (Grp (Plus (Lit (\<lambda>x. x \<noteq> 10)))))"

definition action_re :: re where
  "action_re = istr (ascii ''Action:'') (Seq (Star (Lit isspace)) (Grp (Plus (Lit (\<lambda>x. x \<noteq> 10)))))"

text \<open>
  \<^verbatim>\<open>Action Input:\s*(\{.*?\}\s*$)\<close> with IGNORECASE, DOTALL and MULTILINE, and the
  fallback \<^verbatim>\<open>Action Input:\s*(\{[^}]+\})\<close> with IGNORECASE. The braces are the code
  points 123 and 125.
\<close>

definition input_re :: re where
  "input_re = istr (ascii ''Action Input:'')
     (Seq (Star (Lit isspace))
        (Grp (Seq (Lit (\<lambda>x. x = 123))
                (Seq (Lazy (Lit (\<lambda>x. True)))
                   (Seq (Lit (\<lambda>x. x = 125)) (Seq (Star (Lit isspace)) Eol))))))"

definition input_fallback_re :: re where
  "input_fallback_re = istr (ascii ''Action Input:'')
     (Seq (Star (Lit isspace))
        (Grp (Seq (Lit (\<lambda>x. x = 123))
                (Seq (Plus (Lit (\<lambda>x. x \<noteq> 125))) (Lit (\<lambda>x. x = 125))))))"

text \<open>
  \<open>\w\<close> of a Unicode pattern is \<open>str.isalnum\<close> or the underscore. On ASCII that is
  letters, digits and \<open>_\<close>; beyond ASCII it is a table of the Unicode database, which
  the functions below take as the parameter \<open>U\<close>.
\<close>

definition is_word :: "(pychar \<Rightarrow> bool) \<Rightarrow> pychar \<Rightarrow> bool" where
  "is_word U c \<longleftrightarrow>
     (if c < 128
      then (48 \<le> c \<and> c \<le> 57) \<or> (65 \<le> c \<and> c \<le> 90) \<or> (97 \<le> c \<and> c \<le> 122) \<or> c = 95
      else U c)"

text \<open>\<^verbatim>\<open>\bTrue\b\<close>, \<^verbatim>\<open>\bFalse\b\<close>, \<^verbatim>\<open>\bNone\b\<close> and \<^verbatim>\<open>[\x00-\x1f\x7f-\x9f]\<close>.\<close>

definition word_re :: "(pychar \<Rightarrow> bool) \<Rightarrow> string \<Rightarrow> re" where
  "word_re U w = Seq (Wb (is_word U)) (sstr (ascii w) (Wb (is_word U)))"

definition control_re :: re where
  "control_re = Lit (\<lambda>x. x \<le> 31 \<or> (127 \<le> x \<and> x \<le> 159))"

section \<open>Python values and the JSON decoder\<close>

text \<open>
  The values the agent handles: tool inputs and results. A dict keeps its keys in
  insertion order, so it is a list of pairs; everything that is neither a dict nor a
  list is an atom. A float is kept as the text it was read from.
\<close>

datatype atom = ANone | ABool bool | AInt int | AFloat pystr | AStr pystr | AOther pystr

datatype pyval = Atom atom | PList "pyval list" | PDict "(pystr \<times> pyval) list"

text \<open>\<open>d[k] = v\<close>: a key already present keeps its place and takes the new value.\<close>

fun dict_setitem :: "(pystr \<times> 'v) list \<Rightarrow> pystr \<Rightarrow> 'v \<Rightarrow> (pystr \<times> 'v) list" where
  "dict_setitem [] k v = [(k, v)]"
| "dict_setitem ((k', v') # d) k v = (if k' = k then (k, v) # d else (k', v') # dict_setitem d k v)"

text \<open>
  \<open>json.loads\<close> on a \<open>str\<close>, as CPython's scanner reads it: whitespace is space,
  tab, line feed and carriage return; a string is strict (no control character) with
  the escapes of JSON and surrogate pairs joined; the constants \<open>NaN\<close>, \<open>Infinity\<close>
  and \<open>-Infinity\<close> are accepted. \<open>None\<close> is \<open>JSONDecodeError\<close>. The limits of the
  interpreter (recursion depth, digits of an integer, memory) are not modelled.
\<close>

definition json_ws :: "pychar \<Rightarrow> bool" where
  "json_ws c \<longleftrightarrow> c = 32 \<or> c = 9 \<or> c = 10 \<or> c = 13"

definition isdigit :: "pychar \<Rightarrow> bool" where
  "isdigit c \<longleftrightarrow> 48 \<le> c \<and> c \<le> 57"

definition hexval :: "pychar \<Rightarrow> nat option" where
  "hexval c =
     (if 48 \<le> c \<and> c \<le> 57 then Some (c - 48)
      else if 97 \<le> c \<and> c \<le> 102 then Some (c - 87)
      else if 65 \<le> c \<and> c \<le> 70 then Some (c - 55)
      else None)"

fun hex4 :: "pystr \<Rightarrow> (nat \<times> pystr) option" where
  "hex4 (a # b # c # d # rest) =
     (case (hexval a, hexval b, hexval c, hexval d) of
        (Some a', Some b', Some c', Some d') \<Rightarrow> Some (4096 * a' + 256 * b' + 16 * c' + d', rest)
      | _ \<Rightarrow> None)"
| "hex4 _ = None"

definition escape_char :: "pychar \<Rightarrow> pychar option" where
  "escape_char e =
     (if e = 34 \<or> e = 92 \<or> e = 47 then Some e
      else if e = 98 then Some 8
      else if e = 102 then Some 12
      else if e = 110 then Some 10
      else if e = 114 then Some 13
      else if e = 116 then Some 9
      else None)"

text \<open>
  The text of a string after its opening quote; \<open>acc\<close> is what has been read. The
  result is the string and the text after its closing quote.
\<close>

function scanstring :: "pystr \<Rightarrow> pystr \<Rightarrow> (pystr \<times> pystr) option" where
  "scanstring acc [] = None"
| "scanstring acc (c # cs) =
     (if c = 34 then Some (acc, cs)
      else if c = 92 then
        (case cs of
           [] \<Rightarrow> None
         | e # es \<Rightarrow>
             if e = 117 then
               (case hex4 es of
                  None \<Rightarrow> None
                | Some (u, r) \<Rightarrow>
                    if 55296 \<le> u \<and> u \<le> 56319 \<and> take 2 r = [92, 117] then
                      (case hex4 (drop 2 r) of
                         None \<Rightarrow> None
                       | Some (u2, r2) \<Rightarrow>
                           if 56320 \<le> u2 \<and> u2 \<le> 57343
                           then scanstring (acc @ [65536 + (u - 55296) * 1024 + (u2 - 56320)])
                                  (drop 10 es)
                           else scanstring (acc @ [u]) (drop 4 es))
                    else scanstring (acc @ [u]) (drop 4 es))
             else
               (case escape_char e of
                  None \<Rightarrow> None
                | Some ch \<Rightarrow> scanstring (acc @ [ch]) es))
      else if c \<le> 31 then None
      else scanstring (acc @ [c]) cs)"
  by pat_completeness auto
termination
  by (relation "measure (\<lambda>(acc, s). length s)") auto

definition decimal :: "pystr \<Rightarrow> int" where
  "decimal ds = foldl (\<lambda>n c. 10 * n + (int c - 48)) 0 ds"

text \<open>
  A number: \<^verbatim>\<open>-?(0|[1-9][0-9]*)(\.[0-9]+)?([eE][-+]?[0-9]+)?\<close>. Without fraction and
  exponent it is an \<open>int\<close>, otherwise a \<open>float\<close>.
\<close>

definition match_number :: "pystr \<Rightarrow> (atom \<times> pystr) option" where
  "match_number s =
     (let neg = (take 1 s = [45]);
          s1 = (if neg then drop 1 s else s)
      in case s1 of
           [] \<Rightarrow> None
         | d # r \<Rightarrow>
             if \<not> isdigit d then None
             else
               (let ip = (if d = 48 then [d] else d # takeWhile isdigit r);
                    r1 = (if d = 48 then r else dropWhile isdigit r);
                    fp = (case r1 of
                            dot # d2 # r2 \<Rightarrow>
                              if dot = 46 \<and> isdigit d2 then dot # d2 # takeWhile isdigit r2 else []
                          | _ \<Rightarrow> []);
                    r2 = drop (length fp) r1;
                    ep = (case r2 of
                            [] \<Rightarrow> []
                          | e # r3 \<Rightarrow>
                              if e = 101 \<or> e = 69 then
                                (let sg = (if take 1 r3 = [43] \<or> take 1 r3 = [45] then take 1 r3 else []);
                                     ds = takeWhile isdigit (drop (length sg) r3)
                                 in if ds = [] then [] else e # sg @ ds)
                              else []);
                    r3 = drop (length ep) r2
                in if fp = [] \<and> ep = []
                   then Some (AInt (if neg then - decimal ip else decimal ip), r3)
                   else Some (AFloat ((if neg then [45] else []) @ ip @ fp @ ep), r3)))"

text \<open>
  \<open>scan_once\<close> reads one value, \<open>parse_object\<close> the members of an object from its
  first key on, \<open>parse_array\<close> the elements of an array from its first on. The first
  argument bounds the number of values read and is at least the length of the text.
\<close>

fun scan_once :: "nat \<Rightarrow> pystr \<Rightarrow> (pyval \<times> pystr) option"
  and parse_object :: "nat \<Rightarrow> (pystr \<times> pyval) list \<Rightarrow> pystr \<Rightarrow> (pyval \<times> pystr) option"
  and parse_array :: "nat \<Rightarrow> pyval list \<Rightarrow> pystr \<Rightarrow> (pyval \<times> pystr) option" where
  "scan_once 0 s = None"
| "scan_once (Suc n) s =
     (case s of
        [] \<Rightarrow> None
      | c # cs \<Rightarrow>
          if c = 34 then
            (case scanstring [] cs of None \<Rightarrow> None | Some (t, r) \<Rightarrow> Some (Atom (AStr t), r))
          else if c = 123 then
            (case dropWhile json_ws cs of
               [] \<Rightarrow> None
             | c' # r \<Rightarrow> if c' = 125 then Some (PDict [], r) else parse_object n [] (c' # r))
          else if c = 91 then
            (case dropWhile json_ws cs of
               [] \<Rightarrow> None
             | c' # r \<Rightarrow> if c' = 93 then Some (PList [], r) else parse_array n [] (c' # r))
          else if startswith s (ascii ''null'') then Some (Atom ANone, drop 4 s)
          else if startswith s (ascii ''true'') then Some (Atom (ABool True), drop 4 s)
          else if startswith s (ascii ''false'') then Some (Atom (ABool False), drop 5 s)
          else if startswith s (ascii ''NaN'') then Some (Atom (AFloat (ascii ''NaN'')), drop 3 s)
          else if startswith s (ascii ''Infinity'')
            then Some (Atom (AFloat (ascii ''Infinity'')), drop 8 s)
          else if startswith s (ascii ''-Infinity'')
            then Some (Atom (AFloat (ascii ''-Infinity'')), drop 9 s)
          else (case match_number s of None \<Rightarrow> None | Some (a, r) \<Rightarrow> Some (Atom a, r)))"
| "parse_object 0 d s = None"
| "parse_object (Suc n) d s =
     (case s of
        [] \<Rightarrow> None
      | q # cs \<Rightarrow>
          if q \<noteq> 34 then None
          else
            (case scanstring [] cs of
               None \<Rightarrow> None
             | Some (k, r) \<Rightarrow>
                 (case dropWhile json_ws r of
                    [] \<Rightarrow> None
                  | colon # r1 \<Rightarrow>
                      if colon \<noteq> 58 then None
                      else
                        (case scan_once n (dropWhile json_ws r1) of
                           None \<Rightarrow> None
                         | Some (v, r2) \<Rightarrow>
                             (case dropWhile json_ws r2 of
                                [] \<Rightarrow> None
                              | e # r3 \<Rightarrow>
                                  if e = 125 then Some (PDict (dict_setitem d k v), r3)
                                  else if e = 44
                                  then parse_object n (dict_setitem d k v) (dropWhile json_ws r3)
                                  else None)))))"
| "parse_array 0 a s = None"
| "parse_array (Suc n) a s =
     (case scan_once n s of
        None \<Rightarrow> None
      | Some (v, r) \<Rightarrow>
          (case dropWhile json_ws r of
             [] \<Rightarrow> None
           | e # r1 \<Rightarrow>
               if e = 93 then Some (PList (a @ [v]), r1)
               else if e = 44 then parse_array n (a @ [v]) (dropWhile json_ws r1)
               else None))"

definition json_loads :: "pystr \<Rightarrow> pyval option" where
  "json_loads s =
     (if take 1 s = [65279] then None
      else
        (case scan_once (Suc (length s)) (dropWhile json_ws s) of
           None \<Rightarrow> None
         | Some (v, r) \<Rightarrow> if dropWhile json_ws r = [] then Some v else None))"

section \<open>The output parser\<close>

text \<open>
  The result of \<open>_parse_react_output\<close>: the source returns a dict whose \<open>type\<close> is
  \<open>final_answer\<close>, \<open>action\<close>, \<open>thought\<close> or \<open>unknown\<close>, with the fields of that type.
\<close>

datatype parse_result =
    FinalAnswer pystr
  | Action pystr pystr pyval
  | Thought pystr
  | Unknown pystr

text \<open>
  The repair of an undecodable payload: the Python spellings of the constants become
  the JSON ones, then every control character becomes a space.
\<close>

definition repair :: "(pychar \<Rightarrow> bool) \<Rightarrow> pystr \<Rightarrow> pystr" where
  "repair U json_str =
     (let cleaned = json_str;
          cleaned = re_sub (word_re U ''True'') (ascii ''true'') None cleaned;
          cleaned = re_sub (word_re U ''False'') (ascii ''false'') None cleaned;
          cleaned = re_sub (word_re U ''None'') (ascii ''null'') None cleaned;
          cleaned = re_sub control_re [32] None cleaned
      in cleaned)"

text \<open>The match for the action input: the strict pattern, then the fallback.\<close>

definition input_match :: "pystr \<Rightarrow> pystr option" where
  "input_match text =
     (case re_search input_re text of
        Some g \<Rightarrow> Some g
      | None \<Rightarrow> re_search input_fallback_re text)"

definition parse_action_input :: "(pychar \<Rightarrow> bool) \<Rightarrow> pystr \<Rightarrow> pyval" where
  "parse_action_input U text =
     (case input_match text of
        Some g \<Rightarrow>
          (let json_str = strip g in
           case json_loads json_str of
             Some v \<Rightarrow> v
           | None \<Rightarrow>
               (case json_loads (repair U json_str) of
                  Some v \<Rightarrow> v
                | None \<Rightarrow> PDict []))
      | None \<Rightarrow> PDict [])"

text \<open>
  The action name: the matched line stripped, then, when it is not empty, without
  surrounding backticks and quotes (code points 96, 39, 34) and cut before the first
  opening parenthesis (40).
\<close>

definition action_name :: "pystr \<Rightarrow> pystr option" where
  "action_name text =
     (case re_search action_re text of
        None \<Rightarrow> None
      | Some g \<Rightarrow>
          (let action = strip g in
           if action = [] then Some action
           else
             (let action = strip_chars [96, 39, 34] action in
              if 40 \<in> set action then Some (strip (takeWhile (\<lambda>c. c \<noteq> 40) action))
              else Some action)))"

definition parse_react_output :: "(pychar \<Rightarrow> bool) \<Rightarrow> pystr \<Rightarrow> parse_result" where
  "parse_react_output U text =
     (case re_search final_re text of
        Some g \<Rightarrow> FinalAnswer (strip g)
      | None \<Rightarrow>
          (let thought = (case re_search thought_re text of Some g \<Rightarrow> strip g | None \<Rightarrow> []);
               action = action_name text
           in case action of
                Some (c # cs) \<Rightarrow> Action thought (c # cs) (parse_action_input U text)
              | _ \<Rightarrow> if thought \<noteq> [] then Thought thought else Unknown text))"

section \<open>The redaction pass\<close>

text \<open>
  \<open>_clean_email_data\<close>: a value that is neither a dict nor a list is returned as it
  is; a list is cleaned item by item; a dict is rebuilt by inserting, in the order of
  \<open>items()\<close>, every key but \<open>body_html\<close>, with a dict or list value cleaned.
\<close>

fun clean_email_data :: "pyval \<Rightarrow> pyval" where
  "clean_email_data (Atom a) = Atom a"
| "clean_email_data (PList items) = PList (map clean_email_data items)"
| "clean_email_data (PDict items) =
     PDict (foldl (\<lambda>cleaned (key, val).
                     if key = ascii ''body_html'' then cleaned
                     else dict_setitem cleaned key
                            (case val of
                               PDict d \<Rightarrow> clean_email_data val
                             | PList l \<Rightarrow> clean_email_data val
                             | Atom a \<Rightarrow> val))
                  [] items)"

section \<open>The agent and what it runs on\<close>

text \<open>
  Everything outside the repository acts on a world \<open>'w\<close> that is passed along: the
  language model, the tools, the callbacks and the clock. A call that can raise
  returns the text of the exception on the left.
\<close>

record 'w tool =
  name :: pystr
  description :: "pystr option"
  invoke :: "pyval \<Rightarrow> 'w \<Rightarrow> (pystr + pyval) \<times> 'w"

text \<open>
  The parts of the Python runtime the agent calls and this theory does not define:
  the Unicode table behind \<open>\w\<close>, \<open>str.lower\<close>, \<open>str\<close> of a value that is not a
  string, \<open>json.dumps\<close> (plain, and with \<open>default=str, indent=2\<close>, which can raise),
  \<open>datetime.now().isoformat()\<close> and the formatted current time of the prompt.
\<close>

record 'w runtime =
  unicode_alnum :: "pychar \<Rightarrow> bool"
  str_lower :: "pystr \<Rightarrow> pystr"
  str_other :: "atom \<Rightarrow> pystr"
  json_dumps :: "pyval \<Rightarrow> pystr"
  json_dumps_indent :: "pyval \<Rightarrow> pystr + pystr"
  now_isoformat :: "'w \<Rightarrow> pystr \<times> 'w"
  now_strftime :: "'w \<Rightarrow> pystr \<times> 'w"

text \<open>
  \<open>ReActAgent\<close>: \<open>llm\<close> is \<open>self.llm.invoke\<close> with the stop sequences, giving the
  \<open>content\<close> of the response; \<open>tool_map\<close> is the dict built from \<open>tools\<close>.
\<close>

record 'w agent =
  llm :: "pystr \<Rightarrow> 'w \<Rightarrow> (pystr + pystr) \<times> 'w"
  tools :: "'w tool list"
  system_prompt :: pystr

definition tool_map :: "'w agent \<Rightarrow> (pystr \<times> 'w tool) list" where
  "tool_map ag = foldl (\<lambda>m t. dict_setitem m (name t) t) [] (tools ag)"

definition template_head :: pystr where
  \<open>template_head = concat
    [ascii ''You are a helpful AI Sales Assistant using the ReAct (Reasoning + Acting) framework.'' @ [10],
     [10],
     ascii ''You have access to the following tools:'' @ [10]]\<close>

definition template_question :: pystr where
  \<open>template_question = concat
    [[10],
     [10],
     ascii ''CRITICAL: You MUST follow this EXACT format. Do NOT write conversational text. Do NOT describe what you "would" do.'' @ [10],
     [10],
     ascii ''**REQUIRED FORMAT:**'' @ [10],
     [10],
     ascii ''Thought: [Your reasoning - one concise sentence]'' @ [10],
     ascii ''Action: [EXACT tool name from the list above]'' @ [10],
     ascii ''Action Input: {"arg1": "value1", "arg2": "value2"}'' @ [10],
     [10],
     ascii ''STOP HERE! The system will execute the tool and provide the Observation. DO NOT continue writing!'' @ [10],
     [10],
     ascii ''**STRICT RULES:**'' @ [10],
     ascii ''1. ALWAYS start with "Thought:" then your reasoning'' @ [10],
     ascii ''2. ALWAYS use EXACT tool names from the list  '' @ [10],
     ascii ''3. Action Input MUST be valid JSON - use lowercase true/false/null (NOT True/False/None)'' @ [10],
     ascii ''4. STOP after Action Input - do NOT write "Observation:"'' @ [10],
     ascii ''5. The system will execute the tool and add the real Observation'' @ [10],
     ascii ''6. Do NOT write "I will" or "I would" - JUST DO IT'' @ [10],
     ascii ''7. When task is complete, write "Final Answer:" immediately'' @ [10],
     ascii ''8. **NEVER repeat actions** - check history below before acting'' @ [10],
     ascii ''9. If you see "[END_TASK]" in Observation, provide Final Answer NOW'' @ [10],
     ascii ''10. Maximum 3-4 actions per task, then conclude'' @ [10],
     [10],
     [10],
     [10],
     ascii ''**YOUR TURN:**'' @ [10],
     [10],
     ascii ''Question: '']\<close>

definition template_previous :: pystr where
  \<open>template_previous = concat
    [[10],
     [10],
     ascii ''**Previous actions (DO NOT REPEAT):**'' @ [10]]\<close>

definition template_tail :: pystr where
  \<open>template_tail = concat
    [[10],
     [10],
     ascii ''Continue (or Final Answer if done):'' @ [10]]\<close>

definition react_prompt_template :: "pystr \<Rightarrow> pystr \<Rightarrow> pystr \<Rightarrow> pystr" where
  "react_prompt_template tool_descriptions input agent_scratchpad =
     template_head @ tool_descriptions @ template_question @ input @ template_previous @
     agent_scratchpad @ template_tail"

definition format_tool_descriptions :: "'w agent \<Rightarrow> pystr" where
  "format_tool_descriptions ag =
     join [10]
       (map (\<lambda>t. ascii ''- '' @ name t @ ascii '': '' @
                  (case description t of
                     None \<Rightarrow> ascii ''No description''
                   | Some d \<Rightarrow> if d = [] then ascii ''No description'' else d))
            (tools ag))"

definition py_str :: "'w runtime \<Rightarrow> atom \<Rightarrow> pystr" where
  "py_str rt a = (case a of AStr s \<Rightarrow> s | _ \<Rightarrow> str_other rt a)"

definition email_tools :: "pystr list" where
  "email_tools =
     [ascii ''search_and_fetch_emails'', ascii ''batch_fetch_emails'', ascii ''fetch_email'',
      ascii ''list_unread'', ascii ''dynamic_mail_fetch_tool'']"

text \<open>
  \<open>_execute_tool\<close>. The quote around the tool name is the code point 39.
\<close>

definition tool_not_found :: "'w agent \<Rightarrow> pystr \<Rightarrow> pystr" where
  "tool_not_found ag tname =
     (let available = join (ascii '', '') (map fst (tool_map ag)) in
      ascii ''Error: Tool '' @ [39] @ tname @ [39] @ ascii '' not found. Available tools: '' @
      take 200 available @ ascii ''...'')"

definition tool_failed :: "pystr \<Rightarrow> pystr \<Rightarrow> pystr" where
  "tool_failed tname e = ascii ''Error executing tool '' @ [39] @ tname @ [39] @ ascii '': '' @ e"

definition execute_tool :: "'w runtime \<Rightarrow> 'w agent \<Rightarrow> pystr \<Rightarrow> pyval \<Rightarrow> 'w \<Rightarrow> pystr \<times> 'w" where
  "execute_tool rt ag tname tinput w =
     (case map_of (tool_map ag) tname of
        None \<Rightarrow> (tool_not_found ag tname, w)
      | Some t \<Rightarrow>
          (case invoke t tinput w of
             (Inl e, w') \<Rightarrow> (tool_failed tname e, w')
           | (Inr result, w') \<Rightarrow>
               (let decoded =
                      (case result of
                         Atom a \<Rightarrow>
                           (case json_loads (py_str rt a) of
                              None \<Rightarrow> Inl (py_str rt a)
                            | Some v \<Rightarrow> Inr v)
                       | _ \<Rightarrow> Inr result)
                in case decoded of
                     Inl result_str \<Rightarrow> (result_str, w')
                   | Inr result_data \<Rightarrow>
                       (let result_data =
                              (if tname \<in> set email_tools then clean_email_data result_data
                               else result_data)
                        in case json_dumps_indent rt result_data of
                             Inl e \<Rightarrow> (tool_failed tname e, w')
                           | Inr result_str \<Rightarrow> (result_str, w')))))"

section \<open>The loop\<close>

record react_step =
  step_type :: string
  content :: pystr
  timestamp :: pystr
  tool_name :: "pystr option"
  tool_input :: "pyval option"
  tool_output :: "pystr option"

definition ReActStep :: "string \<Rightarrow> pystr \<Rightarrow> pystr \<Rightarrow> react_step" where
  "ReActStep st c ts =
     \<lparr>step_type = st, content = c, timestamp = ts,
      tool_name = None, tool_input = None, tool_output = None\<rparr>"

text \<open>
  A message of the conversation history: the name of its class, and its \<open>content\<close>
  when it has one.
\<close>

datatype message = Message pystr "pystr option"

text \<open>The arguments of \<open>run_streaming\<close>.\<close>

record 'w run_args =
  user_input :: pystr
  max_iterations :: int
  callback :: "(react_step \<Rightarrow> 'w \<Rightarrow> 'w) option"
  conversation_history :: "message list"
  cancellation_callback :: "('w \<Rightarrow> bool \<times> 'w) option"

definition conversation_context :: "message list \<Rightarrow> pystr" where
  "conversation_context history =
     (if history = [] then []
      else
        [10, 10] @ ascii ''**Previous Conversation:**'' @ [10] @
        concat (map (\<lambda>msg. case msg of
                       Message cls None \<Rightarrow> []
                     | Message cls (Some c) \<Rightarrow>
                         [10] @
                         (if cls = ascii ''HumanMessage'' then ascii ''User'' else ascii ''Assistant'') @
                         ascii '': '' @
                         (if length c > 800 then take 800 c @ ascii ''...'' else c) @ [10])
                  (drop (length history - 6) history)) @
        [10] @ ascii ''**Current Question:**'' @ [10])"

definition full_prompt :: "'w agent \<Rightarrow> 'w run_args \<Rightarrow> pystr \<Rightarrow> pystr \<Rightarrow> pystr" where
  "full_prompt ag args time_context agent_scratchpad =
     (let prompt = react_prompt_template (format_tool_descriptions ag) (user_input args)
                     agent_scratchpad;
          prompt = (if conversation_context (conversation_history args) \<noteq> []
                    then conversation_context (conversation_history args) @ prompt else prompt)
      in if system_prompt ag \<noteq> []
         then system_prompt ag @ [10, 10] @ time_context @ prompt
         else time_context @ prompt)"

text \<open>
  A step is stamped with the current time, handed to the callback when there is one,
  and yielded.
\<close>

definition yield_step ::
  "'w runtime \<Rightarrow> 'w run_args \<Rightarrow> (pystr \<Rightarrow> react_step) \<Rightarrow> 'w \<Rightarrow> react_step \<times> 'w" where
  "yield_step rt args mk w =
     (case now_isoformat rt w of
        (ts, w') \<Rightarrow>
          (mk ts, (case callback args of None \<Rightarrow> w' | Some f \<Rightarrow> f (mk ts) w')))"

definition llm_error_content :: "'w runtime \<Rightarrow> pystr \<Rightarrow> pystr" where
  "llm_error_content rt e =
     (let is_context_error =
            (contains (ascii ''maximum context length'') (str_lower rt e) \<or>
             contains (ascii ''tokens'') (str_lower rt e) \<or>
             contains (ascii ''context'') (str_lower rt e))
      in if is_context_error
         then [9888, 65039] @ ascii '' **Context Length Exceeded!**'' @ [10, 10] @
              ascii ''The conversation has exceeded the maximum token limit.'' @ [10, 10] @
              ascii ''**Error:** '' @ e @ [10, 10] @
              ascii ''**Solution:** Please clear the chat history using the '' @ [39, 129529] @
              ascii '' Clear Chat'' @ [39] @
              ascii '' button in the sidebar and start a new conversation.''
         else ascii ''LLM error: '' @ e)"

function str_nat :: "nat \<Rightarrow> pystr" where
  "str_nat n = (if n < 10 then [48 + n] else str_nat (n div 10) @ [48 + n mod 10])"
  by pat_completeness auto
termination
  by (relation "measure id") auto

definition str_int :: "int \<Rightarrow> pystr" where
  "str_int i = (if i < 0 then 45 # str_nat (nat (- i)) else str_nat (nat i))"

definition cap_content :: "int \<Rightarrow> pystr" where
  "cap_content n =
     ascii ''I'' @ [39] @ ascii ''ve reached the maximum number of reasoning steps ('' @ str_int n @
     ascii ''). Based on what I'' @ [39] @ ascii ''ve accomplished, the task has been completed.''"

text \<open>
  \<open>cancellation_callback and cancellation_callback()\<close>: without a callback nothing
  is asked and the world is as it was.
\<close>

definition cancel_requested :: "'w run_args \<Rightarrow> 'w \<Rightarrow> bool \<times> 'w" where
  "cancel_requested args w =
     (case cancellation_callback args of None \<Rightarrow> (False, w) | Some c \<Rightarrow> c w)"

text \<open>
  The scratchpad after an action: thought, action, input and observation are appended,
  and a note to conclude when the observation holds \<open>[END_TASK]\<close>.
\<close>

definition action_scratchpad ::
  "'w runtime \<Rightarrow> pystr \<Rightarrow> pystr \<Rightarrow> pystr \<Rightarrow> pyval \<Rightarrow> pystr \<Rightarrow> pystr" where
  "action_scratchpad rt agent_scratchpad thought action action_input observation =
     (let sp = agent_scratchpad @
               [10] @ ascii ''Thought: '' @ thought @ [10] @
               ascii ''Action: '' @ action @ [10] @
               ascii ''Action Input: '' @ json_dumps rt action_input @ [10] @
               ascii ''Observation: '' @ observation @ [10]
      in if contains (ascii ''[END_TASK]'') observation
         then sp @ [10] @ ascii ''[SYSTEM]: Task marked as complete. Provide Final Answer now.'' @ [10]
         else sp)"

text \<open>
  One pass through the body of the \<open>while\<close> loop. The result is the steps yielded,
  then either the value the generator returns (left) or the scratchpad for the next
  pass (right), and the world.
\<close>

definition iteration_body ::
  "'w runtime \<Rightarrow> 'w agent \<Rightarrow> 'w run_args \<Rightarrow> pystr \<Rightarrow> pystr \<Rightarrow> 'w \<Rightarrow>
     react_step list \<times> (pystr + pystr) \<times> 'w" where
  "iteration_body rt ag args time_context agent_scratchpad w =
     (case cancel_requested args w of
        (True, w1) \<Rightarrow>
          (case yield_step rt args (ReActStep ''final_answer'' (ascii ''Task cancelled by user'')) w1 of
             (cancel_step, w2) \<Rightarrow> ([cancel_step], Inl (ascii ''Task cancelled by user''), w2))
      | (False, w1) \<Rightarrow>
          (case llm ag (full_prompt ag args time_context agent_scratchpad) w1 of
             (Inl e, w2) \<Rightarrow>
               (case yield_step rt args (ReActStep ''error'' (llm_error_content rt e)) w2 of
                  (error_step, w3) \<Rightarrow> ([error_step], Inl (llm_error_content rt e), w3))
           | (Inr response, w2) \<Rightarrow>
               (let llm_output = strip response in
                case parse_react_output (unicode_alnum rt) llm_output of
                  FinalAnswer c \<Rightarrow>
                    (case yield_step rt args (ReActStep ''final_answer'' c) w2 of
                       (final_step, w3) \<Rightarrow> ([final_step], Inl c, w3))
                | Action thought action action_input \<Rightarrow>
                    (case (if thought \<noteq> []
                           then (case yield_step rt args (ReActStep ''thought'' thought) w2 of
                                   (thought_step, w3) \<Rightarrow> ([thought_step], w3))
                           else ([], w2)) of
                       (thought_steps, w3) \<Rightarrow>
                         (case yield_step rt args
                                 (\<lambda>ts. \<lparr>step_type = ''action'', content = action, timestamp = ts,
                                        tool_name = Some action, tool_input = Some action_input,
                                        tool_output = None\<rparr>) w3 of
                            (action_step, w4) \<Rightarrow>
                              (case execute_tool rt ag action action_input w4 of
                                 (observation, w5) \<Rightarrow>
                                   (case yield_step rt args
                                           (\<lambda>ts. \<lparr>step_type = ''observation'', content = observation,
                                                  timestamp = ts, tool_name = Some action,
                                                  tool_input = None,
                                                  tool_output = Some observation\<rparr>) w5 of
                                      (obs_step, w6) \<Rightarrow>
                                        (thought_steps @ [action_step, obs_step],
                                         Inr (action_scratchpad rt agent_scratchpad thought action
                                                action_input observation),
                                         w6)))))
                | Thought thought \<Rightarrow>
                    (case yield_step rt args (ReActStep ''thought'' thought) w2 of
                       (thought_step, w3) \<Rightarrow>
                         ([thought_step],
                          Inr (agent_scratchpad @ [10] @ ascii ''Thought: '' @ thought @ [10]), w3))
                | Unknown raw \<Rightarrow>
                    ([], Inr (agent_scratchpad @ [10] @ llm_output @ [10]), w2))))"

text \<open>
  The \<open>while\<close> loop from the counter \<open>iteration\<close> on, and after it the step for the
  cap. The result is every step yielded, the value returned, and the world.
\<close>

function run_loop ::
  "'w runtime \<Rightarrow> 'w agent \<Rightarrow> 'w run_args \<Rightarrow> pystr \<Rightarrow> int \<Rightarrow> pystr \<Rightarrow> 'w \<Rightarrow>
     react_step list \<times> pystr \<times> 'w" where
  "run_loop rt ag args time_context iteration agent_scratchpad w =
     (if iteration < max_iterations args then
        (case iteration_body rt ag args time_context agent_scratchpad w of
           (steps, Inl ret, w') \<Rightarrow> (steps, ret, w')
         | (steps, Inr sp, w') \<Rightarrow>
             (case run_loop rt ag args time_context (iteration + 1) sp w' of
                (steps', ret, w'') \<Rightarrow> (steps @ steps', ret, w'')))
      else
        (case yield_step rt args (ReActStep ''final_answer'' (cap_content (max_iterations args))) w of
           (timeout_step, w') \<Rightarrow> ([timeout_step], content timeout_step, w')))"
  by pat_completeness simp
termination
  by (relation "measure (\<lambda>(rt, ag, args, tc, iteration, sp, w). nat (max_iterations args - iteration))")
     simp_all

definition time_context :: "pystr \<Rightarrow> pystr" where
  "time_context current_time = ascii ''**CURRENT TIME:** '' @ current_time @ [10, 10]"

definition run_streaming ::
  "'w runtime \<Rightarrow> 'w agent \<Rightarrow> 'w run_args \<Rightarrow> 'w \<Rightarrow> react_step list \<times> pystr \<times> 'w" where
  "run_streaming rt ag args w =
     (case now_strftime rt w of
        (current_time, w') \<Rightarrow> run_loop rt ag args (time_context current_time) 0 [] w')"

section \<open>Vocabulary of the properties\<close>

text \<open>
  A Python dict has each key once. \<open>wf_val\<close> says so of every dict inside a value:
  it is the invariant of the representation of dicts by lists of pairs, and holds of
  every value Python can build.
\<close>

fun wf_val :: "pyval \<Rightarrow> bool" where
  "wf_val (Atom a) = True"
| "wf_val (PList xs) = list_all wf_val xs"
| "wf_val (PDict kvs) = (distinct (map fst kvs) \<and> list_all (\<lambda>(k, v). wf_val v) kvs)"

text \<open>No dict at any depth of the value, inside lists included, has the key \<open>body_html\<close>.\<close>

fun body_html_free :: "pyval \<Rightarrow> bool" where
  "body_html_free (Atom a) = True"
| "body_html_free (PList xs) = list_all body_html_free xs"
| "body_html_free (PDict kvs) =
     list_all (\<lambda>(k, v). k \<noteq> ascii ''body_html'' \<and> body_html_free v) kvs"

text \<open>The loop of the redaction pass over the items of a dict, from the dict \<open>acc\<close> on.\<close>

definition rebuild ::
  "pystr \<Rightarrow> ('a \<Rightarrow> 'b) \<Rightarrow> (pystr \<times> 'b) list \<Rightarrow> (pystr \<times> 'a) list \<Rightarrow> (pystr \<times> 'b) list" where
  "rebuild b f acc kvs =
     foldl (\<lambda>cleaned (key, val). if key = b then cleaned else dict_setitem cleaned key (f val))
       acc kvs"

text \<open>
  Every action step is directly followed by an observation step, and an observation
  step stands nowhere else.
\<close>

fun act_obs_paired :: "react_step list \<Rightarrow> bool" where
  "act_obs_paired [] = True"
| "act_obs_paired (s # rest) =
     (if step_type s = ''action''
      then (case rest of
              [] \<Rightarrow> False
            | ob # rest' \<Rightarrow> step_type ob = ''observation'' \<and> act_obs_paired rest')
      else step_type s \<noteq> ''observation'' \<and> act_obs_paired rest)"

definition count_type :: "string \<Rightarrow> react_step list \<Rightarrow> nat" where
  "count_type t steps = length (filter (\<lambda>s. step_type s = t) steps)"

text \<open>
  The steps of one action/observation cycle: an action step and the observation step
  of the same tool, after the thought step when the reply had a thought.
\<close>

fun is_cycle :: "react_step list \<Rightarrow> bool" where
  "is_cycle [a, ob] =
     (step_type a = ''action'' \<and> step_type ob = ''observation'' \<and> tool_name ob = tool_name a)"
| "is_cycle [t, a, ob] =
     (step_type t = ''thought'' \<and> step_type a = ''action'' \<and> step_type ob = ''observation'' \<and>
      tool_name ob = tool_name a)"
| "is_cycle steps = False"

fun is_action :: "parse_result \<Rightarrow> bool" where
  "is_action (Action thought action action_input) = True"
| "is_action r = False"

text \<open>
  The model answers every prompt, in every world, with a reply that parses as an
  action; and the cancellation callback, when there is one, never returns true.
\<close>

definition always_acts :: "'w runtime \<Rightarrow> 'w agent \<Rightarrow> bool" where
  "always_acts rt ag \<longleftrightarrow>
     (\<forall>prompt w. case fst (llm ag prompt w) of
                   Inl e \<Rightarrow> False
                 | Inr response \<Rightarrow>
                     is_action (parse_react_output (unicode_alnum rt) (strip response)))"

definition never_cancelled :: "'w run_args \<Rightarrow> bool" where
  "never_cancelled args \<longleftrightarrow> (\<forall>w. \<not> fst (cancel_requested args w))"

text \<open>
  The first \<open>n\<close> passes through the body of the loop, from a scratchpad and a world:
  the steps they yield, and the scratchpad and world after them when none of them
  returned.
\<close>

fun first_iterations ::
  "'w runtime \<Rightarrow> 'w agent \<Rightarrow> 'w run_args \<Rightarrow> pystr \<Rightarrow> nat \<Rightarrow> pystr \<Rightarrow> 'w \<Rightarrow>
     react_step list \<times> (pystr \<times> 'w) option" where
  "first_iterations rt ag args tc 0 sp w = ([], Some (sp, w))"
| "first_iterations rt ag args tc (Suc n) sp w =
     (case iteration_body rt ag args tc sp w of
        (steps, Inl ret, w') \<Rightarrow> (steps, None)
      | (steps, Inr sp', w') \<Rightarrow>
          (case first_iterations rt ag args tc n sp' w' of
             (steps', r) \<Rightarrow> (steps @ steps', r)))"

text \<open>A step that does not end a run: neither a final answer nor an error.\<close>

definition intermediate :: "react_step \<Rightarrow> bool" where
  "intermediate s \<longleftrightarrow> step_type s \<noteq> ''final_answer'' \<and> step_type s \<noteq> ''error''"


text \<open>
  The text to read starts with a spelling of the marker that \<open>re.IGNORECASE\<close>
  accepts; and the text after the first such spelling in a text, if there is one.
\<close>

fun ci_prefix :: "pystr \<Rightarrow> pystr \<Rightarrow> bool" where
  "ci_prefix [] xs = True"
| "ci_prefix (c # cs) [] = False"
| "ci_prefix (c # cs) (x # xs) = (ci c x \<and> ci_prefix cs xs)"

fun ci_find :: "pystr \<Rightarrow> pystr \<Rightarrow> pystr option" where
  "ci_find m [] = (if m = [] then Some [] else None)"
| "ci_find m (x # xs) =
     (if ci_prefix m (x # xs) then Some (drop (length m) (x # xs)) else ci_find m xs)"

text \<open>
  The payloads of the action input in the examples: Python literals between single
  quotes (code point 39), between double quotes (34), and the latter after the repair.
\<close>

definition payload_single :: pystr where
  "payload_single =
     ascii ''{'' @ [39] @ ascii ''ok'' @ [39] @ ascii '': True, '' @ [39] @ ascii ''v'' @ [39] @
     ascii '': None}''"

definition payload_double :: pystr where
  "payload_double =
     ascii ''{'' @ [34] @ ascii ''ok'' @ [34] @ ascii '': True, '' @ [34] @ ascii ''v'' @ [34] @
     ascii '': None}''"

definition payload_repaired :: pystr where
  "payload_repaired =
     ascii ''{'' @ [34] @ ascii ''ok'' @ [34] @ ascii '': true, '' @ [34] @ ascii ''v'' @ [34] @
     ascii '': null}''"

text \<open>
  A small world for concrete runs: the world is a counter, the clock and the library
  functions are constant, no code point beyond ASCII counts as alphanumeric, the model
  always asks for the tool \<open>search\<close>, and the
  agent has no tool.
\<close>

definition no_unicode_alnum :: "pychar \<Rightarrow> bool" where
  "no_unicode_alnum c = False"

definition demo_runtime :: "nat runtime" where
  "demo_runtime =
     \<lparr>unicode_alnum = no_unicode_alnum, str_lower = (\<lambda>s. s), str_other = (\<lambda>a. []),
      json_dumps = (\<lambda>v. []), json_dumps_indent = (\<lambda>v. Inr []),
      now_isoformat = (\<lambda>w. ([], w)), now_strftime = (\<lambda>w. ([], w))\<rparr>"

definition demo_agent :: "pystr + pystr \<Rightarrow> nat agent" where
  "demo_agent reply = \<lparr>llm = (\<lambda>prompt w. (reply, w)), tools = [], system_prompt = []\<rparr>"

definition demo_args :: "int \<Rightarrow> (nat \<Rightarrow> bool \<times> nat) option \<Rightarrow> nat run_args" where
  "demo_args n cancel =
     \<lparr>user_input = [], max_iterations = n, callback = None, conversation_history = [],
      cancellation_callback = cancel\<rparr>"

text \<open>A tool that returns \<open>None\<close>, for an agent with one tool.\<close>

definition lookup_tool :: "nat tool" where
  "lookup_tool = \<lparr>name = ascii ''lookup'', description = None, invoke = (\<lambda>i w. (Inr (Atom ANone), w))\<rparr>"

section \<open>Dicts as lists of pairs\<close>

lemma dict_setitem_fresh: "k \<notin> fst ` set d \<Longrightarrow> dict_setitem d k v = d @ [(k, v)]"
  by (induction d) auto

lemma keys_dict_setitem: "fst ` set (dict_setitem d k v) = insert k (fst ` set d)"
  by (induction d k v rule: dict_setitem.induct) auto

lemma map_fst_dict_setitem:
  "map fst (dict_setitem d k v) = (if k \<in> fst ` set d then map fst d else map fst d @ [k])"
  by (induction d k v rule: dict_setitem.induct) auto

lemma distinct_dict_setitem: "distinct (map fst d) \<Longrightarrow> distinct (map fst (dict_setitem d k v))"
  by (simp add: map_fst_dict_setitem)

lemma set_dict_setitem:
  "(k', v') \<in> set (dict_setitem d k v) \<Longrightarrow> (k', v') = (k, v) \<or> (k', v') \<in> set d"
  by (induction d) (auto split: if_splits)

section \<open>The redaction pass: what it removes and what it keeps\<close>

lemma clean_value_case:
  "(case v of PDict d \<Rightarrow> clean_email_data v | PList l \<Rightarrow> clean_email_data v | Atom a \<Rightarrow> v) =
   clean_email_data v"
  by (cases v) simp_all

lemma clean_dict:
  "clean_email_data (PDict kvs) = PDict (rebuild (ascii ''body_html'') clean_email_data [] kvs)"
  unfolding rebuild_def clean_email_data.simps clean_value_case ..

lemma rebuild_Nil [simp]: "rebuild b f acc [] = acc"
  by (simp add: rebuild_def)

lemma rebuild_Cons [simp]:
  "rebuild b f acc ((k, v) # kvs) =
   rebuild b f (if k = b then acc else dict_setitem acc k (f v)) kvs"
  by (simp add: rebuild_def)

text \<open>On a dict whose keys are distinct the loop filters and maps, in order.\<close>

lemma rebuild_distinct_keys:
  "distinct (map fst kvs) \<Longrightarrow> fst ` set acc \<inter> fst ` set kvs = {} \<Longrightarrow>
   rebuild b f acc kvs = acc @ map (\<lambda>(k, v). (k, f v)) (filter (\<lambda>(k, v). k \<noteq> b) kvs)"
proof (induction kvs arbitrary: acc)
  case Nil
  then show ?case by simp
next
  case (Cons kv kvs)
  obtain k v where kv: "kv = (k, v)" by (cases kv)
  show ?case
  proof (cases "k = b")
    case True
    with Cons kv show ?thesis by auto
  next
    case False
    have fresh: "k \<notin> fst ` set acc" using Cons.prems kv by auto
    have "fst ` set (acc @ [(k, f v)]) \<inter> fst ` set kvs = {}" using Cons.prems kv by auto
    with Cons.IH [of "acc @ [(k, f v)]"] Cons.prems kv False fresh show ?thesis
      by (simp add: dict_setitem_fresh)
  qed
qed

text \<open>Whatever the items, the loop builds a dict without the key, of values \<open>f v\<close>.\<close>

lemma rebuild_invariant:
  "distinct (map fst acc) \<Longrightarrow> b \<notin> fst ` set acc \<Longrightarrow> (\<forall>(k, y) \<in> set acc. Q y) \<Longrightarrow>
   (\<forall>(k, v) \<in> set kvs. Q (f v)) \<Longrightarrow>
   distinct (map fst (rebuild b f acc kvs)) \<and> b \<notin> fst ` set (rebuild b f acc kvs) \<and>
   (\<forall>(k, y) \<in> set (rebuild b f acc kvs). Q y)"
proof (induction kvs arbitrary: acc)
  case Nil
  then show ?case by simp
next
  case (Cons kv kvs)
  obtain k v where kv: "kv = (k, v)" by (cases kv)
  show ?case
  proof (cases "k = b")
    case True
    with Cons kv show ?thesis by auto
  next
    case False
    have 1: "distinct (map fst (dict_setitem acc k (f v)))"
      using Cons.prems(1) by (rule distinct_dict_setitem)
    have 2: "b \<notin> fst ` set (dict_setitem acc k (f v))"
      using Cons.prems(2) False by (simp add: keys_dict_setitem)
    have 3: "\<forall>(k, y) \<in> set (dict_setitem acc k (f v)). Q y"
      using Cons.prems(3,4) kv by (auto dest!: set_dict_setitem)
    have 4: "\<forall>(k, v) \<in> set kvs. Q (f v)" using Cons.prems(4) by simp
    from Cons.IH [OF 1 2 3 4] kv False show ?thesis by simp
  qed
qed

lemma clean_idem: "clean_email_data (clean_email_data v) = clean_email_data v"
proof (induction v)
  case (Atom a)
  then show ?case by simp
next
  case (PList xs)
  then show ?case by simp
next
  case (PDict kvs)
  let ?b = "ascii ''body_html''"
  let ?R = "rebuild ?b clean_email_data [] kvs"
  have Q: "\<forall>(k, v) \<in> set kvs. clean_email_data (clean_email_data v) = clean_email_data v"
    using PDict by fastforce
  have inv: "distinct (map fst ?R) \<and> ?b \<notin> fst ` set ?R \<and>
             (\<forall>(k, y) \<in> set ?R. clean_email_data y = y)"
    by (rule rebuild_invariant [where Q = "\<lambda>y. clean_email_data y = y"]) (use Q in auto)
  have "rebuild ?b clean_email_data [] ?R =
        [] @ map (\<lambda>(k, v). (k, clean_email_data v)) (filter (\<lambda>(k, v). k \<noteq> ?b) ?R)"
    by (rule rebuild_distinct_keys) (use inv in auto)
  also have "filter (\<lambda>(k, v). k \<noteq> ?b) ?R = ?R"
    using inv by (force simp: filter_id_conv)
  also have "map (\<lambda>(k, v). (k, clean_email_data v)) ?R = ?R"
    using inv by (intro map_idI) auto
  finally show ?case by (simp only: clean_dict append_Nil)
qed

lemma clean_body_html_free: "body_html_free (clean_email_data v)"
proof (induction v)
  case (Atom a)
  then show ?case by simp
next
  case (PList xs)
  then show ?case by (simp add: list_all_iff)
next
  case (PDict kvs)
  let ?b = "ascii ''body_html''"
  let ?R = "rebuild ?b clean_email_data [] kvs"
  have Q: "\<forall>(k, v) \<in> set kvs. body_html_free (clean_email_data v)"
    using PDict by fastforce
  have inv: "distinct (map fst ?R) \<and> ?b \<notin> fst ` set ?R \<and> (\<forall>(k, y) \<in> set ?R. body_html_free y)"
    by (rule rebuild_invariant [where Q = body_html_free]) (use Q in auto)
  then have "list_all (\<lambda>(k, v). k \<noteq> ?b \<and> body_html_free v) ?R"
    by (force simp: list_all_iff)
  then show ?case by (simp only: clean_dict body_html_free.simps)
qed

lemma clean_dict_distinct:
  "distinct (map fst kvs) \<Longrightarrow>
   clean_email_data (PDict kvs) =
   PDict (map (\<lambda>(k, v). (k, clean_email_data v)) (filter (\<lambda>(k, v). k \<noteq> ascii ''body_html'') kvs))"
  using rebuild_distinct_keys [of kvs "[]" "ascii ''body_html''" clean_email_data]
  by (simp only: clean_dict) simp

lemma clean_unchanged: "wf_val v \<Longrightarrow> body_html_free v \<Longrightarrow> clean_email_data v = v"
proof (induction v)
  case (Atom a)
  then show ?case by simp
next
  case (PList xs)
  then show ?case by (simp add: list_all_iff map_idI)
next
  case (PDict kvs)
  have d: "distinct (map fst kvs)" using PDict.prems by simp
  have f: "filter (\<lambda>(k, v). k \<noteq> ascii ''body_html'') kvs = kvs"
    using PDict.prems(2) by (auto simp: filter_id_conv list_all_iff)
  have m: "map (\<lambda>(k, v). (k, clean_email_data v)) kvs = kvs"
  proof (intro map_idI)
    fix kv assume kv: "kv \<in> set kvs"
    obtain k v where e: "kv = (k, v)" by (cases kv)
    have "wf_val v" "body_html_free v"
      using PDict.prems kv e by (auto simp: list_all_iff)
    moreover have "v \<in> Basic_BNFs.snds kv" using e by simp
    ultimately have "clean_email_data v = v" using PDict.IH kv by blast
    then show "(case kv of (k, v) \<Rightarrow> (k, clean_email_data v)) = kv" using e by simp
  qed
  show ?case by (simp only: clean_dict_distinct [OF d] f m)
qed

text \<open>
  C8. On every nested structure of dicts and lists the redaction pass gives a
  structure with no key \<open>body_html\<close> at any depth, inside lists included; a list
  keeps its length and has each item cleaned; a dict keeps every other key, in the
  order of the input, with its value cleaned; and a value that holds no \<open>body_html\<close>
  is returned as it is, with nothing cut.
\<close>

theorem clean_email_data_redacts:
  assumes "wf_val v"
  shows "body_html_free (clean_email_data v) \<and>
         (body_html_free v \<longrightarrow> clean_email_data v = v) \<and>
         (case v of
            Atom a \<Rightarrow> clean_email_data v = v
          | PList xs \<Rightarrow> clean_email_data v = PList (map clean_email_data xs)
          | PDict kvs \<Rightarrow>
              clean_email_data v =
              PDict (map (\<lambda>(k, x). (k, clean_email_data x))
                       (filter (\<lambda>(k, x). k \<noteq> ascii ''body_html'') kvs)))"
proof (intro conjI)
  show "body_html_free (clean_email_data v)" by (rule clean_body_html_free)
  show "body_html_free v \<longrightarrow> clean_email_data v = v"
    using assms by (simp add: clean_unchanged)
  show "case v of
          Atom a \<Rightarrow> clean_email_data v = v
        | PList xs \<Rightarrow> clean_email_data v = PList (map clean_email_data xs)
        | PDict kvs \<Rightarrow>
            clean_email_data v =
            PDict (map (\<lambda>(k, x). (k, clean_email_data x))
                     (filter (\<lambda>(k, x). k \<noteq> ascii ''body_html'') kvs))"
  proof (cases v)
    case (PDict kvs)
    then have "distinct (map fst kvs)" using assms by simp
    then show ?thesis using PDict by (simp only: pyval.case clean_dict_distinct)
  qed simp_all
qed

theorem clean_email_data_redacts_witness:
  "wf_val (PDict [(ascii ''subject'', Atom (AStr (ascii ''Hi''))),
                  (ascii ''body_html'', Atom (AStr (ascii ''<p>Hi</p>''))),
                  (ascii ''parts'', PList [PDict [(ascii ''body_html'', Atom ANone),
                                                  (ascii ''size'', Atom (AInt 3))]])]) \<and>
   clean_email_data
     (PDict [(ascii ''subject'', Atom (AStr (ascii ''Hi''))),
             (ascii ''body_html'', Atom (AStr (ascii ''<p>Hi</p>''))),
             (ascii ''parts'', PList [PDict [(ascii ''body_html'', Atom ANone),
                                             (ascii ''size'', Atom (AInt 3))]])]) =
   PDict [(ascii ''subject'', Atom (AStr (ascii ''Hi''))),
          (ascii ''parts'', PList [PDict [(ascii ''size'', Atom (AInt 3))]])]"
proof -
  let ?v = "PDict [(ascii ''subject'', Atom (AStr (ascii ''Hi''))),
                   (ascii ''body_html'', Atom (AStr (ascii ''<p>Hi</p>''))),
                   (ascii ''parts'', PList [PDict [(ascii ''body_html'', Atom ANone),
                                                   (ascii ''size'', Atom (AInt 3))]])]"
  have h: "wf_val ?v" by (simp add: ascii_def)
  show ?thesis using h clean_email_data_redacts [OF h] by (simp add: ascii_def)
qed

text \<open>
  C9. The redaction pass is idempotent, and a value that is neither a dict nor a list
  is returned unchanged.
\<close>

theorem clean_email_data_idempotent:
  "clean_email_data (clean_email_data v) = clean_email_data v \<and>
   clean_email_data (Atom a) = Atom a"
  by (simp add: clean_idem)

theorem clean_email_data_idempotent_witness:
  "clean_email_data (clean_email_data (PDict [(ascii ''body_html'', Atom ANone), (ascii ''to'', Atom ANone)])) =
   clean_email_data (PDict [(ascii ''body_html'', Atom ANone), (ascii ''to'', Atom ANone)]) \<and>
   clean_email_data (Atom (AInt 7)) = Atom (AInt 7)"
  using clean_email_data_idempotent
          [of "PDict [(ascii ''body_html'', Atom ANone), (ascii ''to'', Atom ANone)]" "AInt 7"]
  by simp

section \<open>One pass through the loop, branch by branch\<close>

declare run_loop.simps [simp del]

lemma yield_step_ex: "\<exists>ts w'. yield_step rt args mk w = (mk ts, w')"
proof (cases "now_isoformat rt w")
  case (Pair ts w1)
  then have "yield_step rt args mk w =
               (mk ts, case callback args of None \<Rightarrow> w1 | Some f \<Rightarrow> f (mk ts) w1)"
    by (simp add: yield_step_def)
  then show ?thesis by blast
qed

lemma body_cancel:
  assumes "cancel_requested args w = (True, w1)"
  obtains ts w2 where
    "iteration_body rt ag args tc sp w =
       ([ReActStep ''final_answer'' (ascii ''Task cancelled by user'') ts],
        Inl (ascii ''Task cancelled by user''), w2)"
proof -
  obtain ts w2 where y:
    "yield_step rt args (ReActStep ''final_answer'' (ascii ''Task cancelled by user'')) w1 =
       (ReActStep ''final_answer'' (ascii ''Task cancelled by user'') ts, w2)"
    using yield_step_ex [of rt args "ReActStep ''final_answer'' (ascii ''Task cancelled by user'')" w1]
    by blast
  have "iteration_body rt ag args tc sp w =
       ([ReActStep ''final_answer'' (ascii ''Task cancelled by user'') ts],
        Inl (ascii ''Task cancelled by user''), w2)"
    by (simp add: iteration_body_def assms y)
  then show ?thesis by (rule that)
qed

lemma body_llm_error:
  assumes "cancel_requested args w = (False, w1)"
    and "llm ag (full_prompt ag args tc sp) w1 = (Inl e, w2)"
  obtains ts w3 where
    "iteration_body rt ag args tc sp w =
       ([ReActStep ''error'' (llm_error_content rt e) ts], Inl (llm_error_content rt e), w3)"
proof -
  obtain ts w3 where y:
    "yield_step rt args (ReActStep ''error'' (llm_error_content rt e)) w2 =
       (ReActStep ''error'' (llm_error_content rt e) ts, w3)"
    using yield_step_ex [of rt args "ReActStep ''error'' (llm_error_content rt e)" w2] by blast
  have "iteration_body rt ag args tc sp w =
       ([ReActStep ''error'' (llm_error_content rt e) ts], Inl (llm_error_content rt e), w3)"
    by (simp add: iteration_body_def assms y)
  then show ?thesis by (rule that)
qed

lemma body_final:
  assumes "cancel_requested args w = (False, w1)"
    and "llm ag (full_prompt ag args tc sp) w1 = (Inr response, w2)"
    and "parse_react_output (unicode_alnum rt) (strip response) = FinalAnswer c"
  obtains ts w3 where
    "iteration_body rt ag args tc sp w = ([ReActStep ''final_answer'' c ts], Inl c, w3)"
proof -
  obtain ts w3 where y:
    "yield_step rt args (ReActStep ''final_answer'' c) w2 = (ReActStep ''final_answer'' c ts, w3)"
    using yield_step_ex [of rt args "ReActStep ''final_answer'' c" w2] by blast
  have "iteration_body rt ag args tc sp w = ([ReActStep ''final_answer'' c ts], Inl c, w3)"
    by (simp add: iteration_body_def assms y)
  then show ?thesis by (rule that)
qed

lemma body_thought:
  assumes "cancel_requested args w = (False, w1)"
    and "llm ag (full_prompt ag args tc sp) w1 = (Inr response, w2)"
    and "parse_react_output (unicode_alnum rt) (strip response) = Thought t"
  obtains ts w3 where
    "iteration_body rt ag args tc sp w =
       ([ReActStep ''thought'' t ts], Inr (sp @ [10] @ ascii ''Thought: '' @ t @ [10]), w3)"
proof -
  obtain ts w3 where y:
    "yield_step rt args (ReActStep ''thought'' t) w2 = (ReActStep ''thought'' t ts, w3)"
    using yield_step_ex [of rt args "ReActStep ''thought'' t" w2] by blast
  have "iteration_body rt ag args tc sp w =
       ([ReActStep ''thought'' t ts], Inr (sp @ [10] @ ascii ''Thought: '' @ t @ [10]), w3)"
    by (simp add: iteration_body_def assms y)
  then show ?thesis by (rule that)
qed

lemma body_unknown:
  assumes "cancel_requested args w = (False, w1)"
    and "llm ag (full_prompt ag args tc sp) w1 = (Inr response, w2)"
    and "parse_react_output (unicode_alnum rt) (strip response) = Unknown raw"
  shows "iteration_body rt ag args tc sp w = ([], Inr (sp @ [10] @ strip response @ [10]), w2)"
  by (simp add: iteration_body_def assms)

lemma body_action:
  assumes "cancel_requested args w = (False, w1)"
    and "llm ag (full_prompt ag args tc sp) w1 = (Inr response, w2)"
    and "parse_react_output (unicode_alnum rt) (strip response) = Action thought action action_input"
  obtains ths ts_a ts_o w4 observation w5 w6 where
    "iteration_body rt ag args tc sp w =
       (ths @
        [\<lparr>step_type = ''action'', content = action, timestamp = ts_a,
          tool_name = Some action, tool_input = Some action_input, tool_output = None\<rparr>,
         \<lparr>step_type = ''observation'', content = observation, timestamp = ts_o,
          tool_name = Some action, tool_input = None, tool_output = Some observation\<rparr>],
        Inr (action_scratchpad rt sp thought action action_input observation), w6)"
    and "execute_tool rt ag action action_input w4 = (observation, w5)"
    and "if thought = [] then ths = [] else \<exists>ts. ths = [ReActStep ''thought'' thought ts]"
proof -
  define mk_a where "mk_a = (\<lambda>ts. \<lparr>step_type = ''action'', content = action, timestamp = ts,
      tool_name = Some action, tool_input = Some action_input, tool_output = None\<rparr>)"
  obtain ths w3 where th:
    "(if thought \<noteq> []
      then (case yield_step rt args (ReActStep ''thought'' thought) w2 of
              (thought_step, w3) \<Rightarrow> ([thought_step], w3))
      else ([], w2)) = (ths, w3)"
    by (cases "(if thought \<noteq> []
      then (case yield_step rt args (ReActStep ''thought'' thought) w2 of
              (thought_step, w3) \<Rightarrow> ([thought_step], w3))
      else ([], w2))")
  have ths: "if thought = [] then ths = [] else \<exists>ts. ths = [ReActStep ''thought'' thought ts]"
  proof (cases "thought = []")
    case True
    then show ?thesis using th by simp
  next
    case False
    obtain ts w' where "yield_step rt args (ReActStep ''thought'' thought) w2 =
       (ReActStep ''thought'' thought ts, w')"
      using yield_step_ex [of rt args "ReActStep ''thought'' thought" w2] by blast
    then show ?thesis using th False by auto
  qed
  obtain ts_a w4 where ya: "yield_step rt args mk_a w3 = (mk_a ts_a, w4)"
    using yield_step_ex [of rt args mk_a w3] by blast
  obtain observation w5 where ex: "execute_tool rt ag action action_input w4 = (observation, w5)"
    by (cases "execute_tool rt ag action action_input w4")
  define mk_o where "mk_o = (\<lambda>ts. \<lparr>step_type = ''observation'', content = observation,
      timestamp = ts, tool_name = Some action, tool_input = None, tool_output = Some observation\<rparr>)"
  obtain ts_o w6 where yo: "yield_step rt args mk_o w5 = (mk_o ts_o, w6)"
    using yield_step_ex [of rt args mk_o w5] by blast
  have "iteration_body rt ag args tc sp w =
          (ths @ [mk_a ts_a, mk_o ts_o],
           Inr (action_scratchpad rt sp thought action action_input observation), w6)"
    using th ya ex yo unfolding mk_a_def mk_o_def
    by (simp add: iteration_body_def assms)
  then show ?thesis using ex ths unfolding mk_a_def mk_o_def by (rule that)
qed

lemma cancel_requested_cases:
  obtains (yes) w1 where "cancel_requested args w = (True, w1)"
  | (no) w1 where "cancel_requested args w = (False, w1)"
proof (cases "cancel_requested args w")
  case (Pair b w1)
  show ?thesis
  proof (cases b)
    case True
    then show ?thesis using Pair by (intro yes [of w1]) simp
  next
    case False
    then show ?thesis using Pair by (intro no [of w1]) simp
  qed
qed

text \<open>Every pass is one of six.\<close>

lemma iteration_body_cases:
  obtains
    (cancel) w1 ts w2 where
      "cancel_requested args w = (True, w1)"
      "iteration_body rt ag args tc sp w =
         ([ReActStep ''final_answer'' (ascii ''Task cancelled by user'') ts],
          Inl (ascii ''Task cancelled by user''), w2)"
  | (llm_error) w1 e w2 ts w3 where
      "cancel_requested args w = (False, w1)"
      "llm ag (full_prompt ag args tc sp) w1 = (Inl e, w2)"
      "iteration_body rt ag args tc sp w =
         ([ReActStep ''error'' (llm_error_content rt e) ts], Inl (llm_error_content rt e), w3)"
  | (final) w1 response w2 c ts w3 where
      "cancel_requested args w = (False, w1)"
      "llm ag (full_prompt ag args tc sp) w1 = (Inr response, w2)"
      "parse_react_output (unicode_alnum rt) (strip response) = FinalAnswer c"
      "iteration_body rt ag args tc sp w = ([ReActStep ''final_answer'' c ts], Inl c, w3)"
  | (action) w1 response w2 thought action action_input ths ts_a ts_o w4 observation w5 w6 where
      "cancel_requested args w = (False, w1)"
      "llm ag (full_prompt ag args tc sp) w1 = (Inr response, w2)"
      "parse_react_output (unicode_alnum rt) (strip response) = Action thought action action_input"
      "iteration_body rt ag args tc sp w =
         (ths @
          [\<lparr>step_type = ''action'', content = action, timestamp = ts_a,
            tool_name = Some action, tool_input = Some action_input, tool_output = None\<rparr>,
           \<lparr>step_type = ''observation'', content = observation, timestamp = ts_o,
            tool_name = Some action, tool_input = None, tool_output = Some observation\<rparr>],
          Inr (action_scratchpad rt sp thought action action_input observation), w6)"
      "execute_tool rt ag action action_input w4 = (observation, w5)"
      "if thought = [] then ths = [] else \<exists>ts. ths = [ReActStep ''thought'' thought ts]"
  | (thought) w1 response w2 t ts w3 where
      "cancel_requested args w = (False, w1)"
      "llm ag (full_prompt ag args tc sp) w1 = (Inr response, w2)"
      "parse_react_output (unicode_alnum rt) (strip response) = Thought t"
      "iteration_body rt ag args tc sp w =
         ([ReActStep ''thought'' t ts], Inr (sp @ [10] @ ascii ''Thought: '' @ t @ [10]), w3)"
  | (unknown) w1 response w2 raw where
      "cancel_requested args w = (False, w1)"
      "llm ag (full_prompt ag args tc sp) w1 = (Inr response, w2)"
      "parse_react_output (unicode_alnum rt) (strip response) = Unknown raw"
      "iteration_body rt ag args tc sp w = ([], Inr (sp @ [10] @ strip response @ [10]), w2)"
proof (cases rule: cancel_requested_cases [of args w])
  case (yes w1)
  show ?thesis by (rule body_cancel [OF yes]) (rule cancel [OF yes])
next
  case (no w1)
  obtain r w2 where l: "llm ag (full_prompt ag args tc sp) w1 = (r, w2)"
    by (cases "llm ag (full_prompt ag args tc sp) w1")
  show ?thesis
  proof (cases r)
    case (Inl e)
    note l' = l [unfolded Inl]
    show ?thesis by (rule body_llm_error [OF no l']) (rule llm_error [OF no l'])
  next
    case (Inr response)
    note l' = l [unfolded Inr]
    show ?thesis
    proof (cases "parse_react_output (unicode_alnum rt) (strip response)")
      case (FinalAnswer c)
      show ?thesis by (rule body_final [OF no l' FinalAnswer]) (rule final [OF no l' FinalAnswer])
    next
      case (Action thought action action_input)
      show ?thesis by (rule body_action [OF no l' Action]) (rule action [OF no l' Action])
    next
      case (Thought t)
      show ?thesis by (rule body_thought [OF no l' Thought]) (rule thought [OF no l' Thought])
    next
      case (Unknown raw)
      show ?thesis by (rule unknown [OF no l' Unknown body_unknown [OF no l' Unknown]])
    qed
  qed
qed

section \<open>Actions and observations come in pairs\<close>

lemma act_obs_paired_append:
  "act_obs_paired xs \<Longrightarrow> act_obs_paired ys \<Longrightarrow> act_obs_paired (xs @ ys)"
  by (induction xs rule: act_obs_paired.induct) (auto split: list.splits)

lemma act_obs_paired_counts:
  "act_obs_paired xs \<Longrightarrow> count_type ''action'' xs = count_type ''observation'' xs"
  by (induction xs rule: act_obs_paired.induct) (auto simp: count_type_def split: list.splits if_splits)

lemma iteration_body_paired:
  "act_obs_paired (fst (iteration_body rt ag args tc sp w))"
proof (cases rule: iteration_body_cases [of args w rt ag tc sp])
  case (action w1 response w2 thought action action_input ths ts_a ts_o w4 observation w5 w6)
  have "act_obs_paired ths" using action(6) by (auto simp: ReActStep_def split: if_splits)
  then show ?thesis using action(4) by (simp add: act_obs_paired_append)
qed (simp_all add: ReActStep_def)

lemma run_loop_paired: "act_obs_paired (fst (run_loop rt ag args tc i sp w))"
proof (induction "nat (max_iterations args - i)" arbitrary: i sp w)
  case 0
  then have "\<not> i < max_iterations args" by simp
  obtain ts w' where
    "yield_step rt args (ReActStep ''final_answer'' (cap_content (max_iterations args))) w =
       (ReActStep ''final_answer'' (cap_content (max_iterations args)) ts, w')"
    using yield_step_ex [of rt args "ReActStep ''final_answer'' (cap_content (max_iterations args))" w]
    by blast
  with \<open>\<not> i < max_iterations args\<close> show ?case
    by (subst run_loop.simps) (simp add: ReActStep_def)
next
  case (Suc n)
  then have lt: "i < max_iterations args" by simp
  obtain steps out w1 where b: "iteration_body rt ag args tc sp w = (steps, out, w1)"
    by (cases "iteration_body rt ag args tc sp w")
  have p: "act_obs_paired steps" using iteration_body_paired [of rt ag args tc sp w] b by simp
  show ?case
  proof (cases out)
    case (Inl ret)
    then show ?thesis using lt b p by (subst run_loop.simps) simp
  next
    case (Inr sp')
    have n: "n = nat (max_iterations args - (i + 1))" using Suc(2) by simp
    have "act_obs_paired (fst (run_loop rt ag args tc (i + 1) sp' w1))"
      by (rule Suc(1) [OF n])
    moreover obtain steps' ret w2 where
      r: "run_loop rt ag args tc (i + 1) sp' w1 = (steps', ret, w2)"
      by (cases "run_loop rt ag args tc (i + 1) sp' w1")
    ultimately have "act_obs_paired (steps @ steps')" using p by (simp add: act_obs_paired_append)
    then show ?thesis using lt b Inr r by (subst run_loop.simps) simp
  qed
qed

text \<open>
  C3. In every run of \<open>run_streaming\<close>, however it ends (final answer, cap,
  cancellation or failure of the model), every action step is directly followed by one
  observation step and no observation step stands elsewhere; so the run yields as many
  observation steps as action steps.
\<close>

theorem observation_for_every_action:
  "act_obs_paired (fst (run_streaming rt ag args w)) \<and>
   count_type ''observation'' (fst (run_streaming rt ag args w)) =
   count_type ''action'' (fst (run_streaming rt ag args w))"
proof -
  have "act_obs_paired (fst (run_streaming rt ag args w))"
    by (simp add: run_streaming_def run_loop_paired split: prod.splits)
  then show ?thesis by (simp add: act_obs_paired_counts)
qed

theorem observation_for_every_action_witness:
  "act_obs_paired
     (fst (run_streaming demo_runtime (demo_agent (Inr (ascii ''Action: search''))) (demo_args 2 None) 0)) \<and>
   count_type ''observation''
     (fst (run_streaming demo_runtime (demo_agent (Inr (ascii ''Action: search''))) (demo_args 2 None) 0)) =
   count_type ''action''
     (fst (run_streaming demo_runtime (demo_agent (Inr (ascii ''Action: search''))) (demo_args 2 None) 0))"
  by (rule observation_for_every_action)

section \<open>The cap\<close>

lemmas parser_eval =
  parse_react_output_def re_search_def final_re_def thought_re_def action_re_def
  action_name_def parse_action_input_def input_match_def input_re_def input_fallback_re_def
  ascii_def istr_def Plus_def ci_def isspace_def strip_def strip_chars_def

lemma parse_demo_action:
  "parse_react_output no_unicode_alnum (strip (ascii ''Action: search'')) =
   Action [] (ascii ''search'') (PDict [])"
  by (simp add: parser_eval)

lemma is_cycle_counts:
  assumes "is_cycle c"
  shows "count_type ''action'' c = 1 \<and> count_type ''observation'' c = 1 \<and>
         count_type ''final_answer'' c = 0"
  using assms by (rule is_cycle.elims(2)) (simp_all add: count_type_def)

lemma count_type_append [simp]: "count_type t (xs @ ys) = count_type t xs + count_type t ys"
  by (simp add: count_type_def)

lemma cycles_counts:
  "list_all is_cycle cycles \<Longrightarrow>
   count_type ''action'' (concat cycles) = length cycles \<and>
   count_type ''observation'' (concat cycles) = length cycles \<and>
   count_type ''final_answer'' (concat cycles) = 0"
proof (induction cycles)
  case Nil
  then show ?case by (simp add: count_type_def)
next
  case (Cons c cycles)
  then show ?case using is_cycle_counts [of c] by simp
qed

lemma body_cycle:
  assumes "always_acts rt ag" and "never_cancelled args"
  obtains steps sp' w' where
    "iteration_body rt ag args tc sp w = (steps, Inr sp', w')" and "is_cycle steps"
proof (cases rule: iteration_body_cases [of args w rt ag tc sp])
  case (cancel w1 ts w2)
  moreover have "\<not> fst (cancel_requested args w)"
    using assms(2) by (simp add: never_cancelled_def)
  ultimately show ?thesis by simp
next
  case (llm_error w1 e w2 ts w3)
  then have "fst (llm ag (full_prompt ag args tc sp) w1) = Inl e" by simp
  then show ?thesis using assms(1) unfolding always_acts_def
    by (metis old.sum.simps(5))
next
  case (final w1 response w2 c ts w3)
  then have "fst (llm ag (full_prompt ag args tc sp) w1) = Inr response" by simp
  then have "is_action (parse_react_output (unicode_alnum rt) (strip response))"
    using assms(1) unfolding always_acts_def by (metis old.sum.simps(6))
  then show ?thesis using final(3) by simp
next
  case (thought w1 response w2 t ts w3)
  then have "fst (llm ag (full_prompt ag args tc sp) w1) = Inr response" by simp
  then have "is_action (parse_react_output (unicode_alnum rt) (strip response))"
    using assms(1) unfolding always_acts_def by (metis old.sum.simps(6))
  then show ?thesis using thought(3) by simp
next
  case (unknown w1 response w2 raw)
  then have "fst (llm ag (full_prompt ag args tc sp) w1) = Inr response" by simp
  then have "is_action (parse_react_output (unicode_alnum rt) (strip response))"
    using assms(1) unfolding always_acts_def by (metis old.sum.simps(6))
  then show ?thesis using unknown(3) by simp
next
  case (action w1 response w2 thought action action_input ths ts_a ts_o w4 observation w5 w6)
  show ?thesis
  proof (rule that [OF action(4)])
    show "is_cycle (ths @
          [\<lparr>step_type = ''action'', content = action, timestamp = ts_a,
            tool_name = Some action, tool_input = Some action_input, tool_output = None\<rparr>,
           \<lparr>step_type = ''observation'', content = observation, timestamp = ts_o,
            tool_name = Some action, tool_input = None, tool_output = Some observation\<rparr>])"
    proof (cases "thought = []")
      case True
      then show ?thesis using action(6) by simp
    next
      case False
      then obtain ts where "ths = [ReActStep ''thought'' thought ts]" using action(6) by auto
      then show ?thesis by (simp add: ReActStep_def)
    qed
  qed
qed

lemma run_loop_at_cap:
  assumes "\<not> i < max_iterations args"
  obtains ts w' where
    "run_loop rt ag args tc i sp w =
       ([ReActStep ''final_answer'' (cap_content (max_iterations args)) ts],
        cap_content (max_iterations args), w')"
proof -
  obtain ts w' where
    "yield_step rt args (ReActStep ''final_answer'' (cap_content (max_iterations args))) w =
       (ReActStep ''final_answer'' (cap_content (max_iterations args)) ts, w')"
    using yield_step_ex [of rt args "ReActStep ''final_answer'' (cap_content (max_iterations args))" w]
    by blast
  then have "run_loop rt ag args tc i sp w =
       ([ReActStep ''final_answer'' (cap_content (max_iterations args)) ts],
        cap_content (max_iterations args), w')"
    using assms by (subst run_loop.simps) (simp add: ReActStep_def)
  then show ?thesis by (rule that)
qed

lemma run_loop_continue:
  assumes "i < max_iterations args"
    and "iteration_body rt ag args tc sp w = (steps, Inr sp', w1)"
    and "run_loop rt ag args tc (i + 1) sp' w1 = (steps', ret, w2)"
  shows "run_loop rt ag args tc i sp w = (steps @ steps', ret, w2)"
  using assms by (subst run_loop.simps) simp

lemma run_loop_return:
  assumes "i < max_iterations args"
    and "iteration_body rt ag args tc sp w = (steps, Inl ret, w1)"
  shows "run_loop rt ag args tc i sp w = (steps, ret, w1)"
  using assms by (subst run_loop.simps) simp

lemma run_loop_cycles:
  assumes "always_acts rt ag" and "never_cancelled args"
  shows "\<exists>cycles ts w'.
           run_loop rt ag args tc i sp w =
             (concat cycles @ [ReActStep ''final_answer'' (cap_content (max_iterations args)) ts],
              cap_content (max_iterations args), w') \<and>
           length cycles = nat (max_iterations args - i) \<and> list_all is_cycle cycles"
proof (induction "nat (max_iterations args - i)" arbitrary: i sp w)
  case 0
  then have n: "\<not> i < max_iterations args" by simp
  obtain ts w' where
    "run_loop rt ag args tc i sp w =
       ([ReActStep ''final_answer'' (cap_content (max_iterations args)) ts],
        cap_content (max_iterations args), w')"
    by (rule run_loop_at_cap [OF n])
  then have "run_loop rt ag args tc i sp w =
       (concat [] @ [ReActStep ''final_answer'' (cap_content (max_iterations args)) ts],
        cap_content (max_iterations args), w') \<and>
       length ([] :: react_step list list) = nat (max_iterations args - i) \<and> list_all is_cycle []"
    using 0 by simp
  then show ?case by (intro exI)
next
  case (Suc n)
  then have lt: "i < max_iterations args" by simp
  obtain steps sp' w1 where
    b: "iteration_body rt ag args tc sp w = (steps, Inr sp', w1)" and c: "is_cycle steps"
    by (rule body_cycle [OF assms])
  have n: "n = nat (max_iterations args - (i + 1))" using Suc(2) by simp
  obtain cycles ts w' where
    r: "run_loop rt ag args tc (i + 1) sp' w1 =
          (concat cycles @ [ReActStep ''final_answer'' (cap_content (max_iterations args)) ts],
           cap_content (max_iterations args), w')"
    and l: "length cycles = nat (max_iterations args - (i + 1))"
    and a: "list_all is_cycle cycles"
    using Suc(1) [OF n, of sp' w1] by blast
  have "run_loop rt ag args tc i sp w =
          (concat (steps # cycles) @
             [ReActStep ''final_answer'' (cap_content (max_iterations args)) ts],
           cap_content (max_iterations args), w') \<and>
        length (steps # cycles) = nat (max_iterations args - i) \<and>
        list_all is_cycle (steps # cycles)"
    using run_loop_continue [OF lt b r] l a c lt by simp
  then show ?case by (intro exI)
qed

text \<open>
  C2. When every reply of the model parses as an action and cancellation is never
  requested, a run with cap \<open>N\<close> yields exactly \<open>N\<close> cycles, each an action step
  directly followed by its observation step (after the thought step of the reply, when
  it has one), then exactly one step saying the cap was reached, of kind
  \<open>final_answer\<close>, and ends there returning that text. This holds for every \<open>N\<close>,
  so for every \<open>N \<ge> 1\<close>; whether an observation holds \<open>[END_TASK]\<close> makes no
  difference. The run is the value of a total function: it terminates.
\<close>

theorem cap_after_n_cycles:
  assumes "always_acts rt ag" and "never_cancelled args"
  shows "\<exists>cycles ts w'.
           run_streaming rt ag args w =
             (concat cycles @ [ReActStep ''final_answer'' (cap_content (max_iterations args)) ts],
              cap_content (max_iterations args), w') \<and>
           length cycles = nat (max_iterations args) \<and> list_all is_cycle cycles \<and>
           count_type ''action'' (fst (run_streaming rt ag args w)) = nat (max_iterations args) \<and>
           count_type ''observation'' (fst (run_streaming rt ag args w)) =
             nat (max_iterations args) \<and>
           count_type ''final_answer'' (fst (run_streaming rt ag args w)) = 1"
proof -
  obtain current_time w1 where t: "now_strftime rt w = (current_time, w1)"
    by (cases "now_strftime rt w")
  obtain cycles ts w' where
    r: "run_loop rt ag args (time_context current_time) 0 [] w1 =
          (concat cycles @ [ReActStep ''final_answer'' (cap_content (max_iterations args)) ts],
           cap_content (max_iterations args), w')"
    and l: "length cycles = nat (max_iterations args - 0)"
    and a: "list_all is_cycle cycles"
    using run_loop_cycles [OF assms, of "time_context current_time" 0 "[]" w1] by blast
  have s: "run_streaming rt ag args w =
          (concat cycles @ [ReActStep ''final_answer'' (cap_content (max_iterations args)) ts],
           cap_content (max_iterations args), w')"
    using t r by (simp add: run_streaming_def)
  have "run_streaming rt ag args w =
          (concat cycles @ [ReActStep ''final_answer'' (cap_content (max_iterations args)) ts],
           cap_content (max_iterations args), w') \<and>
        length cycles = nat (max_iterations args) \<and> list_all is_cycle cycles \<and>
        count_type ''action'' (fst (run_streaming rt ag args w)) = nat (max_iterations args) \<and>
        count_type ''observation'' (fst (run_streaming rt ag args w)) = nat (max_iterations args) \<and>
        count_type ''final_answer'' (fst (run_streaming rt ag args w)) = 1"
    using l a cycles_counts [OF a] unfolding s
    by (simp add: count_type_def ReActStep_def)
  then show ?thesis by (intro exI)
qed

lemma demo_always_acts: "always_acts demo_runtime (demo_agent (Inr (ascii ''Action: search'')))"
  by (simp add: always_acts_def demo_runtime_def demo_agent_def parse_demo_action)

lemma demo_never_cancelled: "never_cancelled (demo_args n None)"
  by (simp add: never_cancelled_def cancel_requested_def demo_args_def)

theorem cap_after_n_cycles_witness:
  "always_acts demo_runtime (demo_agent (Inr (ascii ''Action: search''))) \<and>
   never_cancelled (demo_args 3 None) \<and>
   count_type ''action''
     (fst (run_streaming demo_runtime (demo_agent (Inr (ascii ''Action: search''))) (demo_args 3 None) 0)) = 3 \<and>
   count_type ''observation''
     (fst (run_streaming demo_runtime (demo_agent (Inr (ascii ''Action: search''))) (demo_args 3 None) 0)) = 3 \<and>
   count_type ''final_answer''
     (fst (run_streaming demo_runtime (demo_agent (Inr (ascii ''Action: search''))) (demo_args 3 None) 0)) = 1"
  using cap_after_n_cycles [OF demo_always_acts demo_never_cancelled, of 3 0]
    demo_always_acts demo_never_cancelled [of 3]
  by (auto simp: demo_args_def)

section \<open>Cancellation\<close>

lemma body_continue_intermediate:
  assumes "iteration_body rt ag args tc sp w = (steps, Inr sp', w')"
  shows "list_all intermediate steps"
proof (cases rule: iteration_body_cases [of args w rt ag tc sp])
  case (action w1 response w2 thought action action_input ths ts_a ts_o w4 observation w5 w6)
  have "list_all intermediate ths"
    using action(6) by (auto simp: intermediate_def ReActStep_def split: if_splits)
  then show ?thesis using action(4) assms by (simp add: intermediate_def)
qed (use assms in \<open>simp_all add: intermediate_def ReActStep_def\<close>)

lemma first_iterations_Suc:
  assumes "first_iterations rt ag args tc (Suc n) sp w = (pre, Some st)"
  obtains steps sp1 w1 steps' where
    "iteration_body rt ag args tc sp w = (steps, Inr sp1, w1)"
    "first_iterations rt ag args tc n sp1 w1 = (steps', Some st)"
    "pre = steps @ steps'"
proof -
  obtain steps out w1 where b: "iteration_body rt ag args tc sp w = (steps, out, w1)"
    by (cases "iteration_body rt ag args tc sp w")
  show ?thesis
  proof (cases out)
    case (Inl ret)
    then show ?thesis using assms b by simp
  next
    case (Inr sp1)
    obtain steps' r where f: "first_iterations rt ag args tc n sp1 w1 = (steps', r)"
      by (cases "first_iterations rt ag args tc n sp1 w1")
    have "r = Some st" "pre = steps @ steps'" using assms b Inr f by simp_all
    then show ?thesis using that [of steps sp1 w1 steps'] b Inr f by simp
  qed
qed

lemma first_iterations_intermediate:
  "first_iterations rt ag args tc n sp w = (pre, Some st) \<Longrightarrow> list_all intermediate pre"
proof (induction n arbitrary: sp w pre)
  case 0
  then show ?case by simp
next
  case (Suc n)
  obtain steps sp1 w1 steps' where
    b: "iteration_body rt ag args tc sp w = (steps, Inr sp1, w1)"
    and f: "first_iterations rt ag args tc n sp1 w1 = (steps', Some st)"
    and p: "pre = steps @ steps'"
    by (rule first_iterations_Suc [OF Suc.prems])
  show ?case using body_continue_intermediate [OF b] Suc.IH [OF f] p by simp
qed

lemma run_loop_unroll:
  "first_iterations rt ag args tc n sp w = (pre, Some (sp', w')) \<Longrightarrow>
   i + int n \<le> max_iterations args \<Longrightarrow>
   run_loop rt ag args tc (i + int n) sp' w' = (steps, ret, w'') \<Longrightarrow>
   run_loop rt ag args tc i sp w = (pre @ steps, ret, w'')"
proof (induction n arbitrary: i sp w pre)
  case 0
  then show ?case by simp
next
  case (Suc n)
  obtain stepsa sp1 w1 steps' where
    b: "iteration_body rt ag args tc sp w = (stepsa, Inr sp1, w1)"
    and f: "first_iterations rt ag args tc n sp1 w1 = (steps', Some (sp', w'))"
    and p: "pre = stepsa @ steps'"
    by (rule first_iterations_Suc [OF Suc.prems(1)])
  have le: "(i + 1) + int n \<le> max_iterations args" using Suc.prems(2) by simp
  have r: "run_loop rt ag args tc ((i + 1) + int n) sp' w' = (steps, ret, w'')"
  proof -
    have "(i + 1) + int n = i + int (Suc n)" by simp
    then show ?thesis using Suc.prems(3) by (simp only:)
  qed
  have "run_loop rt ag args tc (i + 1) sp1 w1 = (steps' @ steps, ret, w'')"
    by (rule Suc.IH [OF f le r])
  moreover have "i < max_iterations args" using Suc.prems(2) by simp
  ultimately show ?case using run_loop_continue b p by simp
qed

text \<open>
  C4. Let \<open>n\<close> passes of the loop have run without returning, yielding the steps
  \<open>pre\<close>, and let pass \<open>n + 1\<close> begin (the cap is not reached). If the cancellation
  callback returns true at the check at the top of that pass, the run yields \<open>pre\<close>
  unchanged, then the one step \<open>Task cancelled by user\<close>, and ends: no step of pass
  \<open>n + 1\<close> or of a later pass is yielded, and no step of \<open>pre\<close> ends a run.
\<close>

theorem cancellation_stops_the_run:
  assumes "now_strftime rt w0 = (current_time, w1)"
    and "first_iterations rt ag args (time_context current_time) n [] w1 = (pre, Some (sp, w))"
    and "int n < max_iterations args"
    and "fst (cancel_requested args w)"
  shows "\<exists>ts w'.
           run_streaming rt ag args w0 =
             (pre @ [ReActStep ''final_answer'' (ascii ''Task cancelled by user'') ts],
              ascii ''Task cancelled by user'', w') \<and>
           list_all intermediate pre"
proof -
  obtain w2 where c: "cancel_requested args w = (True, w2)"
    using assms(4) by (cases "cancel_requested args w") simp
  obtain ts w3 where
    b: "iteration_body rt ag args (time_context current_time) sp w =
          ([ReActStep ''final_answer'' (ascii ''Task cancelled by user'') ts],
           Inl (ascii ''Task cancelled by user''), w3)"
    by (rule body_cancel [OF c])
  have lt: "0 + int n < max_iterations args" using assms(3) by simp
  have r: "run_loop rt ag args (time_context current_time) (0 + int n) sp w =
          ([ReActStep ''final_answer'' (ascii ''Task cancelled by user'') ts],
           ascii ''Task cancelled by user'', w3)"
    by (rule run_loop_return [OF lt b])
  have le: "0 + int n \<le> max_iterations args" using assms(3) by simp
  have "run_loop rt ag args (time_context current_time) 0 [] w1 =
          (pre @ [ReActStep ''final_answer'' (ascii ''Task cancelled by user'') ts],
           ascii ''Task cancelled by user'', w3)"
    by (rule run_loop_unroll [OF assms(2) le r])
  then have "run_streaming rt ag args w0 =
             (pre @ [ReActStep ''final_answer'' (ascii ''Task cancelled by user'') ts],
              ascii ''Task cancelled by user'', w3) \<and>
           list_all intermediate pre"
    using assms(1) first_iterations_intermediate [OF assms(2)] by (simp add: run_streaming_def)
  then show ?thesis by (intro exI)
qed

lemma demo_first_pass:
  "first_iterations demo_runtime (demo_agent (Inr (ascii ''Action: search'')))
     (demo_args 5 (Some (\<lambda>w. (1 \<le> w, Suc w)))) (time_context []) (Suc 0) [] 0 =
   ([\<lparr>step_type = ''action'', content = ascii ''search'', timestamp = [],
      tool_name = Some (ascii ''search''), tool_input = Some (PDict []), tool_output = None\<rparr>,
     \<lparr>step_type = ''observation'',
      content = tool_not_found (demo_agent (Inr (ascii ''Action: search''))) (ascii ''search''),
      timestamp = [], tool_name = Some (ascii ''search''), tool_input = None,
      tool_output = Some (tool_not_found (demo_agent (Inr (ascii ''Action: search''))) (ascii ''search''))\<rparr>],
    Some (action_scratchpad demo_runtime [] [] (ascii ''search'') (PDict [])
            (tool_not_found (demo_agent (Inr (ascii ''Action: search''))) (ascii ''search'')),
          Suc 0))"
  by (simp add: iteration_body_def cancel_requested_def demo_args_def demo_agent_def
      demo_runtime_def yield_step_def execute_tool_def tool_map_def parse_demo_action)

theorem cancellation_stops_the_run_witness:
  "now_strftime demo_runtime 0 = ([], 0) \<and>
   int (Suc 0) < max_iterations (demo_args 5 (Some (\<lambda>w. (1 \<le> w, Suc w)))) \<and>
   fst (cancel_requested (demo_args 5 (Some (\<lambda>w. (1 \<le> w, Suc w)))) (Suc 0)) \<and>
   (\<exists>ts w'.
      run_streaming demo_runtime (demo_agent (Inr (ascii ''Action: search'')))
        (demo_args 5 (Some (\<lambda>w. (1 \<le> w, Suc w)))) 0 =
      ([\<lparr>step_type = ''action'', content = ascii ''search'', timestamp = [],
         tool_name = Some (ascii ''search''), tool_input = Some (PDict []), tool_output = None\<rparr>,
        \<lparr>step_type = ''observation'',
         content = tool_not_found (demo_agent (Inr (ascii ''Action: search''))) (ascii ''search''),
         timestamp = [], tool_name = Some (ascii ''search''), tool_input = None,
         tool_output = Some (tool_not_found (demo_agent (Inr (ascii ''Action: search''))) (ascii ''search''))\<rparr>,
        ReActStep ''final_answer'' (ascii ''Task cancelled by user'') ts],
       ascii ''Task cancelled by user'', w'))"
proof -
  have h1: "now_strftime demo_runtime 0 = ([], 0::nat)" by (simp add: demo_runtime_def)
  have h3: "int (Suc 0) < max_iterations (demo_args 5 (Some (\<lambda>w. (1 \<le> w, Suc w))))"
    by (simp add: demo_args_def)
  have h4: "fst (cancel_requested (demo_args 5 (Some (\<lambda>w. (1 \<le> w, Suc w)))) (Suc 0))"
    by (simp add: cancel_requested_def demo_args_def)
  show ?thesis
    using cancellation_stops_the_run [OF h1 demo_first_pass h3 h4] h1 h3 h4 by simp
qed

section \<open>The dispatcher on an unknown name\<close>

lemma startswith_append: "startswith (sub @ b) sub"
  by (simp add: startswith_def)

lemma contains_here: "contains sub (sub @ b)"
  by (cases "sub @ b") (simp_all add: startswith_def, metis append_eq_conv_conj)

lemma contains_append_left: "contains sub s \<Longrightarrow> contains sub (a @ s)"
  by (induction a) simp_all

lemma contains_middle: "contains sub (a @ sub @ b)"
  by (rule contains_append_left) (rule contains_here)

lemma keys_tool_fold:
  "fst ` set (foldl (\<lambda>m t. dict_setitem m (name t) t) acc ts) = fst ` set acc \<union> name ` set ts"
  by (induction ts arbitrary: acc) (auto simp: keys_dict_setitem)

lemma keys_tool_map: "fst ` set (tool_map ag) = name ` set (tools ag)"
  by (simp add: tool_map_def keys_tool_fold)

lemma unknown_tool_lookup:
  assumes "tname \<notin> set (map name (tools ag))"
  shows "map_of (tool_map ag) tname = None"
  using assms keys_tool_map [of ag] by (simp add: map_of_eq_None_iff)

text \<open>
  C7. For every action name that is not the name of a tool of the agent,
  \<open>_execute_tool\<close> returns, without raising and without touching the world, the
  text \<open>Error: Tool '<name>' not found. Available tools: <listing>...\<close>, which holds
  the name as it was given and a listing of the available names cut to 200
  characters. In the loop that text is the content of the observation step, the pass
  ends without returning, and the loop goes on with the next counter value and a
  scratchpad that holds the text: the run continues as \<open>run_loop\<close> from \<open>i + 1\<close>.
\<close>

theorem unknown_tool_is_an_observation:
  assumes "tname \<notin> set (map name (tools ag))"
  shows "execute_tool rt ag tname tinput w = (tool_not_found ag tname, w) \<and>
         contains tname (tool_not_found ag tname) \<and>
         (\<exists>listing.
            tool_not_found ag tname =
              ascii ''Error: Tool '' @ [39] @ tname @ [39] @
              ascii '' not found. Available tools: '' @ listing @ ascii ''...'' \<and>
            listing = take 200 (join (ascii '', '') (map fst (tool_map ag))) \<and>
            length listing \<le> 200) \<and>
         (cancel_requested args w0 = (False, w1) \<and>
          llm ag (full_prompt ag args tc sp) w1 = (Inr response, w2) \<and>
          parse_react_output (unicode_alnum rt) (strip response) = Action thought tname tinput \<and>
          i < max_iterations args \<longrightarrow>
          (\<exists>steps ts w6.
             iteration_body rt ag args tc sp w0 =
               (steps @
                [\<lparr>step_type = ''observation'', content = tool_not_found ag tname, timestamp = ts,
                  tool_name = Some tname, tool_input = None,
                  tool_output = Some (tool_not_found ag tname)\<rparr>],
                Inr (action_scratchpad rt sp thought tname tinput (tool_not_found ag tname)), w6) \<and>
             run_loop rt ag args tc i sp w0 =
               (case run_loop rt ag args tc (i + 1)
                       (action_scratchpad rt sp thought tname tinput (tool_not_found ag tname)) w6 of
                  (steps', ret, w') \<Rightarrow>
                    (steps @
                     [\<lparr>step_type = ''observation'', content = tool_not_found ag tname,
                       timestamp = ts, tool_name = Some tname, tool_input = None,
                       tool_output = Some (tool_not_found ag tname)\<rparr>] @ steps', ret, w'))))"
proof (intro conjI impI)
  show ex: "execute_tool rt ag tname tinput w = (tool_not_found ag tname, w)" for w
    using unknown_tool_lookup [OF assms] by (simp add: execute_tool_def)
  show "contains tname (tool_not_found ag tname)"
    unfolding tool_not_found_def Let_def
    using contains_middle [of tname "ascii ''Error: Tool '' @ [39]"] by simp
  show "\<exists>listing.
            tool_not_found ag tname =
              ascii ''Error: Tool '' @ [39] @ tname @ [39] @
              ascii '' not found. Available tools: '' @ listing @ ascii ''...'' \<and>
            listing = take 200 (join (ascii '', '') (map fst (tool_map ag))) \<and>
            length listing \<le> 200"
    by (simp add: tool_not_found_def)
  assume a: "cancel_requested args w0 = (False, w1) \<and>
          llm ag (full_prompt ag args tc sp) w1 = (Inr response, w2) \<and>
          parse_react_output (unicode_alnum rt) (strip response) = Action thought tname tinput \<and>
          i < max_iterations args"
  obtain ths ts_a ts_o w4 observation w5 w6 where
    b: "iteration_body rt ag args tc sp w0 =
       (ths @
        [\<lparr>step_type = ''action'', content = tname, timestamp = ts_a,
          tool_name = Some tname, tool_input = Some tinput, tool_output = None\<rparr>,
         \<lparr>step_type = ''observation'', content = observation, timestamp = ts_o,
          tool_name = Some tname, tool_input = None, tool_output = Some observation\<rparr>],
        Inr (action_scratchpad rt sp thought tname tinput observation), w6)"
    and e: "execute_tool rt ag tname tinput w4 = (observation, w5)"
    using a by (elim conjE) (rule body_action)
  have o: "observation = tool_not_found ag tname" using e ex [of w4] by simp
  let ?obs = "\<lparr>step_type = ''observation'', content = tool_not_found ag tname, timestamp = ts_o,
                tool_name = Some tname, tool_input = None,
                tool_output = Some (tool_not_found ag tname)\<rparr>"
  let ?steps = "ths @ [\<lparr>step_type = ''action'', content = tname, timestamp = ts_a,
          tool_name = Some tname, tool_input = Some tinput, tool_output = None\<rparr>]"
  have b': "iteration_body rt ag args tc sp w0 =
       (?steps @ [?obs],
        Inr (action_scratchpad rt sp thought tname tinput (tool_not_found ag tname)), w6)"
    using b o by simp
  have "run_loop rt ag args tc i sp w0 =
               (case run_loop rt ag args tc (i + 1)
                       (action_scratchpad rt sp thought tname tinput (tool_not_found ag tname)) w6 of
                  (steps', ret, w') \<Rightarrow> (?steps @ [?obs] @ steps', ret, w'))"
    using a b' by (subst run_loop.simps) (simp split: prod.splits)
  with b' have "iteration_body rt ag args tc sp w0 =
       (?steps @ [?obs],
        Inr (action_scratchpad rt sp thought tname tinput (tool_not_found ag tname)), w6) \<and>
       run_loop rt ag args tc i sp w0 =
               (case run_loop rt ag args tc (i + 1)
                       (action_scratchpad rt sp thought tname tinput (tool_not_found ag tname)) w6 of
                  (steps', ret, w') \<Rightarrow> (?steps @ [?obs] @ steps', ret, w'))"
    by simp
  then show "\<exists>steps ts w6.
             iteration_body rt ag args tc sp w0 =
               (steps @
                [\<lparr>step_type = ''observation'', content = tool_not_found ag tname, timestamp = ts,
                  tool_name = Some tname, tool_input = None,
                  tool_output = Some (tool_not_found ag tname)\<rparr>],
                Inr (action_scratchpad rt sp thought tname tinput (tool_not_found ag tname)), w6) \<and>
             run_loop rt ag args tc i sp w0 =
               (case run_loop rt ag args tc (i + 1)
                       (action_scratchpad rt sp thought tname tinput (tool_not_found ag tname)) w6 of
                  (steps', ret, w') \<Rightarrow>
                    (steps @
                     [\<lparr>step_type = ''observation'', content = tool_not_found ag tname,
                       timestamp = ts, tool_name = Some tname, tool_input = None,
                       tool_output = Some (tool_not_found ag tname)\<rparr>] @ steps', ret, w'))"
    by (intro exI)
qed

theorem unknown_tool_is_an_observation_witness:
  "ascii ''search'' \<notin> set (map name (tools ((demo_agent (Inr (ascii ''Action: search'')))\<lparr>tools := [lookup_tool]\<rparr>))) \<and>
   execute_tool demo_runtime ((demo_agent (Inr (ascii ''Action: search'')))\<lparr>tools := [lookup_tool]\<rparr>)
     (ascii ''search'') (PDict []) 0 =
     (ascii ''Error: Tool '' @ [39] @ ascii ''search'' @ [39] @
      ascii '' not found. Available tools: lookup...'', 0) \<and>
   contains (ascii ''search'')
     (tool_not_found ((demo_agent (Inr (ascii ''Action: search'')))\<lparr>tools := [lookup_tool]\<rparr>) (ascii ''search''))"
proof -
  let ?ag = "(demo_agent (Inr (ascii ''Action: search'')))\<lparr>tools := [lookup_tool]\<rparr>"
  have h: "ascii ''search'' \<notin> set (map name (tools ?ag))"
    by (simp add: demo_agent_def lookup_tool_def ascii_def)
  have t: "tool_not_found ?ag (ascii ''search'') =
      ascii ''Error: Tool '' @ [39] @ ascii ''search'' @ [39] @
      ascii '' not found. Available tools: lookup...''"
    by (simp add: tool_not_found_def tool_map_def demo_agent_def lookup_tool_def ascii_def)
  note T = unknown_tool_is_an_observation [OF h, of demo_runtime "PDict []" 0]
  have e: "execute_tool demo_runtime ?ag (ascii ''search'') (PDict []) 0 =
             (tool_not_found ?ag (ascii ''search''), 0)"
    by (rule T [THEN conjunct1])
  have c: "contains (ascii ''search'') (tool_not_found ?ag (ascii ''search''))"
    by (rule T [THEN conjunct2, THEN conjunct1])
  show ?thesis using h e [unfolded t] c by (intro conjI)
qed

section \<open>The kinds of the last step\<close>






section \<open>The patterns of the parser\<close>

declare ms.simps [simp del]

lemma ms_Lit_Cons: "ms (Lit P) (p, x # xs, g) = (if P x then [(Some x, xs, g)] else [])"
  by (simp add: ms.simps)

lemma ms_Lit_Nil: "ms (Lit P) (p, [], g) = []"
  by (simp add: ms.simps)

lemma ms_Seq: "ms (Seq a b) st = concat (map (ms b) (ms a st))"
  by (simp add: ms.simps)

text \<open>A literal text matches where the text to read starts with a spelling of it.\<close>

lemma ms_istr:
  "\<exists>p'. ms (istr m r) (p, xs, g) = (if ci_prefix m xs then ms r (p', drop (length m) xs, g) else [])"
proof (induction m arbitrary: p xs)
  case Nil
  then show ?case by (auto simp: istr_def)
next
  case (Cons c cs)
  have step: "istr (c # cs) r = Seq (Lit (ci c)) (istr cs r)" by (simp add: istr_def)
  show ?case
  proof (cases xs)
    case Nil
    then show ?thesis by (simp add: step ms_Seq ms_Lit_Nil)
  next
    case (Cons x xs')
    show ?thesis
    proof (cases "ci c x")
      case True
      obtain p' where "ms (istr cs r) (Some x, xs', g) =
          (if ci_prefix cs xs' then ms r (p', drop (length cs) xs', g) else [])"
        using Cons.IH [of "Some x" xs'] by blast
      then show ?thesis using True Cons by (auto simp: step ms_Seq ms_Lit_Cons)
    next
      case False
      then show ?thesis using Cons by (simp add: step ms_Seq ms_Lit_Cons)
    qed
  qed
qed

lemma ms_istr_no_match: "\<not> ci_prefix m xs \<Longrightarrow> ms (istr m r) (p, xs, g) = []"
  using ms_istr [of m r p xs g] by auto

lemma ms_istr_match:
  assumes "ci_prefix m xs"
  obtains p' where "ms (istr m r) (p, xs, g) = ms r (p', drop (length m) xs, g)"
  using ms_istr [of m r p xs g] assms by auto

text \<open>A greedy repetition of a class: the longest run first, then shorter ones.\<close>

lemma ms_Star_Lit_Nil: "ms (Star (Lit P)) (p, [], g) = [(p, [], g)]"
  by (simp add: ms.simps)

lemma ms_Star_Lit_Cons:
  "ms (Star (Lit P)) (p, x # xs, g) =
   (if P x then ms (Star (Lit P)) (Some x, xs, g) @ [(p, x # xs, g)] else [(p, x # xs, g)])"
  by (subst ms.simps) (simp add: ms_Lit_Cons)

lemma ms_Star_Lit_first:
  "\<exists>p' tl. ms (Star (Lit P)) (p, xs, g) = (p', dropWhile P xs, g) # tl"
proof (induction xs arbitrary: p)
  case Nil
  then show ?case by (simp add: ms_Star_Lit_Nil)
next
  case (Cons x xs)
  show ?case
  proof (cases "P x")
    case True
    obtain p' tl where "ms (Star (Lit P)) (Some x, xs, g) = (p', dropWhile P xs, g) # tl"
      using Cons [of "Some x"] by blast
    then show ?thesis using True by (simp add: ms_Star_Lit_Cons)
  next
    case False
    then show ?thesis by (simp add: ms_Star_Lit_Cons)
  qed
qed

text \<open>The group \<open>(c+)\<close> of a class: empty text or a first character outside the class
  gives no match; otherwise the longest run comes first.\<close>

lemma ms_Grp_Plus_Nil: "ms (Grp (Plus (Lit Q))) (p, [], g) = []"
  by (simp add: ms.simps Plus_def)

lemma ms_Grp_Plus_Cons:
  "\<exists>p' tl. ms (Grp (Plus (Lit Q))) (p, x # xs, g) =
     (if Q x then (p', dropWhile Q xs, Some (x # takeWhile Q xs)) # tl else [])"
proof (cases "Q x")
  case True
  obtain p' tl where s: "ms (Star (Lit Q)) (Some x, xs, g) = (p', dropWhile Q xs, g) # tl"
    using ms_Star_Lit_first by blast
  have l: "Suc (length xs) - length (dropWhile Q xs) = Suc (length (takeWhile Q xs))"
    using takeWhile_dropWhile_id [of Q xs]
    by (metis Suc_diff_le add_diff_cancel_right' length_append length_dropWhile_le)
  have "ms (Grp (Plus (Lit Q))) (p, x # xs, g) =
        map (\<lambda>(p', xs', g'). (p', xs', Some (take (length (x # xs) - length xs') (x # xs))))
          (ms (Star (Lit Q)) (Some x, xs, g))"
    using True by (simp add: ms.simps(5) Plus_def ms_Seq ms_Lit_Cons)
  then show ?thesis using True s l by (simp add: takeWhile_eq_take [symmetric])
next
  case False
  then show ?thesis by (simp add: ms.simps(5) Plus_def ms_Seq ms_Lit_Cons)
qed

text \<open>\<^verbatim>\<open>\s*(.+)\<close> with DOTALL: on a text that is not empty the first match has a group
  whose stripped text is the stripped text; on the empty text there is no match.\<close>

lemma ms_ws_any_Nil:
  "ms (Seq (Star (Lit isspace)) (Grp (Plus (Lit (\<lambda>x. True))))) (p, [], g) = []"
  by (simp add: ms_Seq ms_Star_Lit_Nil ms_Grp_Plus_Nil)

lemma ms_ws_any_Cons_step:
  "ms (Seq (Star (Lit isspace)) (Grp (Plus (Lit Q)))) (p, x # xs, g) =
   (if isspace x
    then ms (Seq (Star (Lit isspace)) (Grp (Plus (Lit Q)))) (Some x, xs, g) @
         ms (Grp (Plus (Lit Q))) (p, x # xs, g)
    else ms (Grp (Plus (Lit Q))) (p, x # xs, g))"
  by (simp add: ms_Seq ms_Star_Lit_Cons)

lemma strip_ws_Cons: "isspace x \<Longrightarrow> strip (x # xs) = strip xs"
  by (simp add: strip_def)

lemma strip_ws_single: "isspace x \<Longrightarrow> strip [x] = []"
  by (simp add: strip_def)

lemma takeWhile_all: "takeWhile (\<lambda>x. True) xs = xs"
  by (induction xs) simp_all

lemma ms_ws_any_first:
  "xs \<noteq> [] \<Longrightarrow>
   \<exists>p' r t tl. ms (Seq (Star (Lit isspace)) (Grp (Plus (Lit (\<lambda>x. True))))) (p, xs, g) =
                  (p', r, Some t) # tl \<and> strip t = strip xs"
proof (induction xs arbitrary: p)
  case Nil
  then show ?case by simp
next
  case (Cons x xs)
  obtain p1 tl1 where
    g: "ms (Grp (Plus (Lit (\<lambda>x. True)))) (p, x # xs, g) =
          (p1, dropWhile (\<lambda>x. True) xs, Some (x # takeWhile (\<lambda>x. True) xs)) # tl1"
    using ms_Grp_Plus_Cons [of "\<lambda>x. True" p x xs g] by auto
  show ?case
  proof (cases "isspace x")
    case False
    then show ?thesis using g by (simp add: ms_ws_any_Cons_step takeWhile_all)
  next
    case True
    show ?thesis
    proof (cases "xs = []")
      case True
      then show ?thesis using \<open>isspace x\<close> g
        by (simp add: ms_ws_any_Cons_step ms_ws_any_Nil strip_ws_single takeWhile_all)
    next
      case False
      obtain p' r t tl where
        "ms (Seq (Star (Lit isspace)) (Grp (Plus (Lit (\<lambda>x. True))))) (Some x, xs, g) =
           (p', r, Some t) # tl" and "strip t = strip xs"
        using Cons.IH [OF False, of "Some x"] by blast
      then show ?thesis using True by (simp add: ms_ws_any_Cons_step strip_ws_Cons)
    qed
  qed
qed

lemma ci_prefix_take: "ci_prefix m xs \<Longrightarrow> list_all2 ci m (take (length m) xs)"
  by (induction m xs rule: ci_prefix.induct) simp_all

lemma ci_prefix_list_all2: "list_all2 ci m m' \<Longrightarrow> ci_prefix m (m' @ tail)"
  by (induction m m' rule: list_all2_induct) simp_all

lemma ci_prefix_length: "ci_prefix m xs \<Longrightarrow> length m \<le> length xs"
  by (induction m xs rule: ci_prefix.induct) simp_all

lemma ci_find_nonempty:
  "xs \<noteq> [] \<Longrightarrow>
   ci_find m xs = (if ci_prefix m xs then Some (drop (length m) xs) else ci_find m (tl xs))"
  by (cases xs) simp_all

text \<open>The first spelling of a marker in a text that holds one.\<close>

lemma ci_find_first:
  assumes "list_all2 ci m m'" and "tail \<noteq> []"
  shows "\<exists>pre' m'' rest.
           ci_find m (pre @ m' @ tail) = Some rest \<and> pre @ m' @ tail = pre' @ m'' @ rest \<and>
           list_all2 ci m m'' \<and> length pre' \<le> length pre \<and> rest \<noteq> []"
proof (induction pre)
  case Nil
  have l: "length m = length m'" using assms(1) by (rule list_all2_lengthD)
  have "m' @ tail \<noteq> []" using assms(2) by simp
  then have "ci_find m (m' @ tail) = Some tail"
    using ci_prefix_list_all2 [OF assms(1), of tail] l by (simp add: ci_find_nonempty)
  then have "ci_find m ([] @ m' @ tail) = Some tail \<and> [] @ m' @ tail = [] @ m' @ tail \<and>
             list_all2 ci m m' \<and> length ([] :: pystr) \<le> length ([] :: pystr) \<and> tail \<noteq> []"
    using assms by simp
  then show ?case by (intro exI)
next
  case (Cons x pre)
  let ?whole = "x # pre @ m' @ tail"
  have l: "length m = length m'" using assms(1) by (rule list_all2_lengthD)
  show ?case
  proof (cases "ci_prefix m ?whole")
    case True
    have "ci_find m ((x # pre) @ m' @ tail) = Some (drop (length m) ?whole) \<and>
          (x # pre) @ m' @ tail = [] @ take (length m) ?whole @ drop (length m) ?whole \<and>
          list_all2 ci m (take (length m) ?whole) \<and>
          length ([] :: pystr) \<le> length (x # pre) \<and> drop (length m) ?whole \<noteq> []"
      using True ci_prefix_take [OF True] l assms(2) by simp
    then show ?thesis by (intro exI)
  next
    case False
    obtain pre' m'' rest where
      "ci_find m (pre @ m' @ tail) = Some rest" "pre @ m' @ tail = pre' @ m'' @ rest"
      "list_all2 ci m m''" "length pre' \<le> length pre" "rest \<noteq> []"
      using Cons by blast
    then have "ci_find m ((x # pre) @ m' @ tail) = Some rest \<and>
          (x # pre) @ m' @ tail = (x # pre') @ m'' @ rest \<and>
          list_all2 ci m m'' \<and> length (x # pre') \<le> length (x # pre) \<and> rest \<noteq> []"
      using False by simp
    then show ?thesis by (intro exI)
  qed
qed

text \<open>The search for \<^verbatim>\<open>Final Answer:\s*(.+)\<close> stops at the first spelling of the
  marker that has text after it.\<close>

lemma search_from_final:
  "ci_find (ascii ''Final Answer:'') xs = Some rest \<Longrightarrow> rest \<noteq> [] \<Longrightarrow>
   \<exists>p' r t. search_from final_re p xs = Some (p', r, Some t) \<and> strip t = strip rest"
proof (induction xs arbitrary: p)
  case Nil
  then show ?case by (simp add: ascii_def)
next
  case (Cons x xs)
  let ?F = "ascii ''Final Answer:''"
  let ?S = "Seq (Star (Lit isspace)) (Grp (Plus (Lit (\<lambda>x. True))))"
  show ?case
  proof (cases "ci_prefix ?F (x # xs)")
    case True
    then have rest: "rest = drop (length ?F) (x # xs)" using Cons.prems(1) by simp
    obtain p1 where m: "ms final_re (p, x # xs, None) = ms ?S (p1, rest, None)"
      unfolding final_re_def rest by (rule ms_istr_match [OF True])
    obtain p' r t tl where "ms ?S (p1, rest, None) = (p', r, Some t) # tl" "strip t = strip rest"
      using ms_ws_any_first [OF Cons.prems(2), of p1 None] by blast
    then show ?thesis using m by simp
  next
    case False
    then have "ms final_re (p, x # xs, None) = []"
      unfolding final_re_def by (rule ms_istr_no_match)
    moreover have "ci_find ?F xs = Some rest" using False Cons.prems(1) by simp
    ultimately show ?thesis using Cons.IH [OF _ Cons.prems(2), of "Some x"] by simp
  qed
qed

text \<open>
  C1. Whenever the reply holds a spelling of \<open>Final Answer:\<close> in any case, followed by
  at least one character, the parser returns a final answer, whatever \<open>Action:\<close> or
  \<open>Thought:\<close> markers the reply also holds; its content is the text after the first
  such spelling in the reply, stripped of surrounding whitespace.
\<close>

theorem final_answer_first:
  assumes "text = pre @ m @ tail"
    and "list_all2 ci (ascii ''Final Answer:'') m"
    and "tail \<noteq> []"
  shows "\<exists>pre' m' rest.
           text = pre' @ m' @ rest \<and> list_all2 ci (ascii ''Final Answer:'') m' \<and>
           length pre' \<le> length pre \<and> rest \<noteq> [] \<and>
           parse_react_output U text = FinalAnswer (strip rest)"
proof -
  obtain pre' m' rest where
    f: "ci_find (ascii ''Final Answer:'') (pre @ m @ tail) = Some rest"
    and d: "pre @ m @ tail = pre' @ m' @ rest"
    and l: "list_all2 ci (ascii ''Final Answer:'') m'" "length pre' \<le> length pre"
    and n: "rest \<noteq> []"
    using ci_find_first [OF assms(2,3), of pre] by blast
  obtain p' r t where "search_from final_re None text = Some (p', r, Some t)" "strip t = strip rest"
    using search_from_final [OF f n, of None] assms(1) by auto
  then have "parse_react_output U text = FinalAnswer (strip rest)"
    by (simp add: parse_react_output_def re_search_def)
  then have "text = pre' @ m' @ rest \<and> list_all2 ci (ascii ''Final Answer:'') m' \<and>
           length pre' \<le> length pre \<and> rest \<noteq> [] \<and>
           parse_react_output U text = FinalAnswer (strip rest)"
    using assms(1) d l n by simp
  then show ?thesis by (intro exI)
qed

lemmas json_eval =
  json_loads_def json_ws_def isdigit_def startswith_def match_number_def decimal_def
  hexval_def escape_char_def ascii_def

lemmas repair_eval =
  repair_def word_re_def sstr_def control_re_def is_word_def ascii_def ms.simps

lemma numeral_fuel:
  "scan_once (numeral k) s = scan_once (Suc (pred_numeral k)) s"
  "parse_object (numeral k) d s = parse_object (Suc (pred_numeral k)) d s"
  "parse_array (numeral k) a s = parse_array (Suc (pred_numeral k)) a s"
  by (simp_all only: numeral_eq_Suc)

section \<open>The final answer comes first\<close>

theorem final_answer_first_witness:
  "list_all2 ci (ascii ''Final Answer:'') (ascii ''FINAL answer:'') \<and>
   parse_react_output no_unicode_alnum
     ((ascii ''Thought: t'' @ [10] @ ascii ''Action: search'' @ [10]) @
      ascii ''FINAL answer:'' @ ascii ''  42 '') =
   FinalAnswer (ascii ''42'')"
proof -
  have h: "list_all2 ci (ascii ''Final Answer:'') (ascii ''FINAL answer:'')"
    by (simp add: ascii_def ci_def)
  have n: "ascii ''  42 '' \<noteq> []" by (simp add: ascii_def)
  have e: "parse_react_output no_unicode_alnum
     ((ascii ''Thought: t'' @ [10] @ ascii ''Action: search'' @ [10]) @
      ascii ''FINAL answer:'' @ ascii ''  42 '') = FinalAnswer (ascii ''42'')"
    using final_answer_first [OF refl h n, where U = no_unicode_alnum
        and pre = "ascii ''Thought: t'' @ [10] @ ascii ''Action: search'' @ [10]"]
    by (simp add: parser_eval ms.simps)
  show ?thesis using h e by (intro conjI)
qed

section \<open>The repair of the action input\<close>

lemma payload_single_undecodable: "json_loads payload_single = None"
  by (simp add: payload_single_def json_eval numeral_fuel)

lemma payload_double_undecodable: "json_loads payload_double = None"
  by (simp add: payload_double_def json_eval numeral_fuel)

lemma repair_payload_double: "repair U payload_double = payload_repaired"
  by (simp add: payload_double_def payload_repaired_def repair_eval)

lemma payload_repaired_decodes:
  "json_loads payload_repaired =
   Some (PDict [(ascii ''ok'', Atom (ABool True)), (ascii ''v'', Atom ANone)])"
  by (simp add: payload_repaired_def json_eval numeral_fuel)

text \<open>
  C5, as stated, fails: the repair renames \<open>True\<close>, \<open>False\<close> and \<open>None\<close> and blanks
  control characters, and does nothing about quotes. With the payload
  \<open>{'ok': True, 'v': None}\<close> the repaired text still has its keys between single
  quotes, the second decoding fails as the first did, and the input is the empty map.
\<close>

theorem single_quoted_payload_not_repaired:
  "parse_react_output no_unicode_alnum
     (ascii ''Action: lookup'' @ [10] @ ascii ''Action Input: '' @ payload_single) =
   Action [] (ascii ''lookup'') (PDict []) \<and>
   parse_action_input no_unicode_alnum
     (ascii ''Action: lookup'' @ [10] @ ascii ''Action Input: '' @ payload_single) \<noteq>
   PDict [(ascii ''ok'', Atom (ABool True)), (ascii ''v'', Atom ANone)]"
proof -
  have m: "input_match (ascii ''Action: lookup'' @ [10] @ ascii ''Action Input: '' @ payload_single) =
           Some payload_single"
    by (simp add: payload_single_def parser_eval ms.simps)
  have s: "strip payload_single = payload_single"
    by (simp add: payload_single_def parser_eval)
  have r: "repair no_unicode_alnum payload_single =
     ascii ''{'' @ [39] @ ascii ''ok'' @ [39] @ ascii '': true, '' @ [39] @ ascii ''v'' @ [39] @
     ascii '': null}''"
    by (simp add: payload_single_def repair_eval)
  have u: "json_loads (ascii ''{'' @ [39] @ ascii ''ok'' @ [39] @ ascii '': true, '' @ [39] @
     ascii ''v'' @ [39] @ ascii '': null}'') = None"
    by (simp add: json_eval numeral_fuel)
  have i: "parse_action_input no_unicode_alnum
     (ascii ''Action: lookup'' @ [10] @ ascii ''Action Input: '' @ payload_single) = PDict []"
    unfolding parse_action_input_def m option.case Let_def s payload_single_undecodable r u
    by simp
  have f: "re_search final_re
     (ascii ''Action: lookup'' @ [10] @ ascii ''Action Input: '' @ payload_single) = None"
    by (simp add: payload_single_def parser_eval ms.simps)
  have t: "re_search thought_re
     (ascii ''Action: lookup'' @ [10] @ ascii ''Action Input: '' @ payload_single) = None"
    by (simp add: payload_single_def parser_eval ms.simps)
  have a: "action_name
     (ascii ''Action: lookup'' @ [10] @ ascii ''Action Input: '' @ payload_single) =
     Some (108 # ascii ''ookup'')"
    by (simp add: payload_single_def parser_eval ms.simps)
  have p: "parse_react_output no_unicode_alnum
     (ascii ''Action: lookup'' @ [10] @ ascii ''Action Input: '' @ payload_single) =
     Action [] (108 # ascii ''ookup'') (PDict [])"
    unfolding parse_react_output_def f t a i by simp
  have l: "108 # ascii ''ookup'' = ascii ''lookup''" by (simp add: ascii_def)
  show ?thesis unfolding p i l by simp
qed

text \<open>
  C5, amended. For every reply whose action input block is the payload
  \<open>{"ok": True, "v": None}\<close>, with the keys between double quotes, decoding fails,
  the repair gives \<open>{"ok": true, "v": null}\<close>, and the parsed action input is the
  map of \<open>ok\<close> to true and \<open>v\<close> to null, whatever the Unicode table.
\<close>

theorem repair_of_double_quoted_payload:
  assumes "input_match text = Some g" and "strip g = payload_double"
  shows "json_loads (strip g) = None \<and> repair U (strip g) = payload_repaired \<and>
         parse_action_input U text =
           PDict [(ascii ''ok'', Atom (ABool True)), (ascii ''v'', Atom ANone)] \<and>
         (\<forall>thought action action_input.
            parse_react_output U text = Action thought action action_input \<longrightarrow>
            action_input = PDict [(ascii ''ok'', Atom (ABool True)), (ascii ''v'', Atom ANone)])"
proof -
  have i: "parse_action_input U text =
           PDict [(ascii ''ok'', Atom (ABool True)), (ascii ''v'', Atom ANone)]"
    by (simp add: parse_action_input_def assms payload_double_undecodable repair_payload_double
        payload_repaired_decodes)
  have "\<forall>thought action action_input.
            parse_react_output U text = Action thought action action_input \<longrightarrow>
            action_input = parse_action_input U text"
    by (simp add: parse_react_output_def Let_def split: option.splits list.splits)
  then show ?thesis
    using i by (simp add: assms payload_double_undecodable repair_payload_double)
qed

theorem repair_of_double_quoted_payload_witness:
  "input_match (ascii ''Action: lookup'' @ [10] @ ascii ''Action Input: '' @ payload_double) =
     Some payload_double \<and>
   strip payload_double = payload_double \<and>
   parse_action_input no_unicode_alnum
     (ascii ''Action: lookup'' @ [10] @ ascii ''Action Input: '' @ payload_double) =
   PDict [(ascii ''ok'', Atom (ABool True)), (ascii ''v'', Atom ANone)]"
proof -
  have m: "input_match (ascii ''Action: lookup'' @ [10] @ ascii ''Action Input: '' @ payload_double) =
           Some payload_double"
    by (simp add: payload_double_def parser_eval ms.simps)
  have s: "strip payload_double = payload_double"
    by (simp add: payload_double_def parser_eval)
  show ?thesis using m s repair_of_double_quoted_payload [OF m s, of no_unicode_alnum] by (intro conjI) simp_all
qed

section \<open>The action without a usable input\<close>






end
